theory Spec2Isabelle
  imports Complex_Main "HOL-Library.Word"
begin

unbundle bit_operations_syntax

section \<open>Machine types, memory images and outcomes\<close>

type_synonym u8 = "8 word"
type_synonym u16 = "16 word"
type_synonym u32 = "32 word"
type_synonym u64 = "64 word"

text \<open>
  A \<^verbatim>\<open>float\<close> is carried as its IEEE-754 bit pattern: both codecs move floats with
  \<^verbatim>\<open>memcpy\<close> and the half-precision conversions work on the bits only.
\<close>

type_synonym f32 = "32 word"

text \<open>
  \<^verbatim>\<open>memcpy\<close> between integers and bytes on the little-endian target the containers
  are written on: least significant byte first.
\<close>

fun le_nat :: "u8 list \<Rightarrow> nat" where
  "le_nat [] = 0"
| "le_nat (b # bs) = unat b + 256 * le_nat bs"

fun le_bytes :: "nat \<Rightarrow> nat \<Rightarrow> u8 list" where
  "le_bytes 0 v = []"
| "le_bytes (Suc n) v = of_nat (v mod 256) # le_bytes n (v div 256)"

definition load_u16 :: "u8 list \<Rightarrow> u16" where
  "load_u16 bs = of_nat (le_nat (take 2 bs))"

definition load_u32 :: "u8 list \<Rightarrow> u32" where
  "load_u32 bs = of_nat (le_nat (take 4 bs))"

definition load_u64 :: "u8 list \<Rightarrow> u64" where
  "load_u64 bs = of_nat (le_nat (take 8 bs))"

definition store_u16 :: "u16 \<Rightarrow> u8 list" where
  "store_u16 w = le_bytes 2 (unat w)"

definition store_u32 :: "u32 \<Rightarrow> u8 list" where
  "store_u32 w = le_bytes 4 (unat w)"

definition store_u64 :: "u64 \<Rightarrow> u8 list" where
  "store_u64 w = le_bytes 8 (unat w)"

text \<open>
  Every entry point returns \<^verbatim>\<open>bool\<close>; \<^verbatim>\<open>false\<close> is the only error signal the
  code has (the process then exits with status 1). On \<^verbatim>\<open>true\<close> the model carries the
  bytes written to the output file. Two more outcomes are kept apart from the return
  values. \<open>Undefined_behaviour\<close> is a path on which the C++ leaves defined behaviour:
  an iterator or a \<^verbatim>\<open>memcpy\<close> past the end of a buffer, the use of a variable that a
  short read left uninitialised. \<open>Aborted\<close> is an exception that nothing catches
  (\<^verbatim>\<open>std::length_error\<close> or \<^verbatim>\<open>std::bad_alloc\<close> from a vector that cannot be
  allocated), which ends the process.
\<close>

datatype 'a outcome = Returned_true 'a | Returned_false | Undefined_behaviour | Aborted

text \<open>
  What a run depends on besides the input bytes: how many bytes a vector can be given,
  and whether the output file can be opened. A vector of \<open>n\<close> bytes is allocated when
  \<open>n\<close> is at most the implementation's \<^verbatim>\<open>max_size()\<close> (\<open>2 ^ 63 - 1\<close> bytes, the largest
  \<^verbatim>\<open>ptrdiff_t\<close>) and at most the memory available. The decoders are modelled with both,
  since they size vectors by numbers read from the container; there the check stands at
  each vector whose size is declared by the container, and the vectors sized by data
  already in memory are taken as allocated. The encoders size every vector by the
  input file they have just read, and are modelled with the input read and the output
  file open.
\<close>

record environment =
  memory_limit :: nat
  output_opens :: bool

definition max_size :: nat where
  "max_size = 2 ^ 63 - 1"

definition allocates :: "environment \<Rightarrow> nat \<Rightarrow> bool" where
  "allocates env n = (n \<le> max_size \<and> n \<le> memory_limit env)"

text \<open>
  \<^verbatim>\<open>std::ifstream::read\<close>: transfers the requested bytes, or, when fewer are left,
  transfers what is left and sets the fail bit; a stream whose fail bit is set
  transfers nothing. \<open>stream_read\<close> returns the bytes transferred.
\<close>

record istream =
  unread :: "u8 list"
  failbit :: bool

definition stream_read :: "nat \<Rightarrow> istream \<Rightarrow> u8 list \<times> istream" where
  "stream_read n s =
     (if failbit s then ([], s)
      else if n \<le> length (unread s)
      then (take n (unread s), s\<lparr>unread := drop n (unread s)\<rparr>)
      else (unread s, \<lparr>unread = [], failbit = True\<rparr>))"

text \<open>
  A \<^verbatim>\<open>std::vector<uint8_t> v(n)\<close> is zero-initialised, so after reading into it the
  bytes that were not transferred are zero.
\<close>

definition zero_filled :: "nat \<Rightarrow> u8 list \<Rightarrow> u8 list" where
  "zero_filled n got = got @ replicate (n - length got) 0"

section \<open>The lossy codec (advcodec.cpp)\<close>

subsection \<open>Container header (lines 17--24)\<close>

text \<open>
  The struct has no padding: 8 + 8 + 4 + 4 + 4 + 4 = 32 bytes, written and read as a
  memory image.
\<close>

record Header =
  original_size :: u64
  json_header_size :: u64
  num_tensors :: u32
  compression_method :: u32
  min_value :: f32
  max_value :: f32

definition store_Header :: "Header \<Rightarrow> u8 list" where
  "store_Header hdr =
     store_u64 (original_size hdr) @ store_u64 (json_header_size hdr) @
     store_u32 (num_tensors hdr) @ store_u32 (compression_method hdr) @
     store_u32 (min_value hdr) @ store_u32 (max_value hdr)"

definition load_Header :: "u8 list \<Rightarrow> Header" where
  "load_Header bs =
     \<lparr>original_size = load_u64 bs,
      json_header_size = load_u64 (drop 8 bs),
      num_tensors = load_u32 (drop 16 bs),
      compression_method = load_u32 (drop 20 bs),
      min_value = load_u32 (drop 24 bs),
      max_value = load_u32 (drop 28 bs)\<rparr>"

subsection \<open>Half-precision conversion (lines 27--64)\<close>

text \<open>
  \<^verbatim>\<open>((bits >> 23) & 0xff) - 127 + 15\<close> is computed on \<^verbatim>\<open>unsigned\<close> and converted to
  the \<^verbatim>\<open>int\<close> \<^verbatim>\<open>exponent\<close>, which gives the integer between -112 and 143;
  \<^verbatim>\<open>exponent << 10\<close> is computed on \<^verbatim>\<open>int\<close> and converted to \<^verbatim>\<open>uint32_t\<close> by the
  bitwise or, and the result is truncated to the \<^verbatim>\<open>uint16_t\<close> return type. In the
  decoder \<^verbatim>\<open>(value & 0x8000) << 16\<close> moves the sign to bit 31 of the \<^verbatim>\<open>uint32_t\<close>
  it is assigned to.
\<close>

definition f32_to_f16 :: "f32 \<Rightarrow> u16" where
  "f32_to_f16 bits =
     (let sign = drop_bit 16 bits AND 0x8000;
          exponent = uint (drop_bit 23 bits AND 0xff) - 127 + 15;
          mantissa = drop_bit 13 bits AND 0x3ff
      in if exponent \<le> 0 then ucast sign
         else if exponent \<ge> 31 then ucast (sign OR 0x7c00)
         else ucast (sign OR word_of_int (push_bit 10 exponent) OR mantissa))"

definition f16_to_f32 :: "u16 \<Rightarrow> f32" where
  "f16_to_f32 v =
     (let sign = push_bit 16 (ucast (v AND 0x8000) :: u32);
          exponent = uint (drop_bit 10 v AND 0x1f);
          mantissa = (ucast (v AND 0x3ff) :: u32)
      in if exponent = 0 then sign
         else if exponent = 31 then sign OR 0x7f800000
         else sign OR word_of_int (push_bit 23 (exponent - 15 + 127)) OR push_bit 13 mantissa)"

subsection \<open>Float arithmetic\<close>

text \<open>
  The quantizer computes with IEEE-754 single precision. The arithmetic itself belongs
  to the hardware, not to this repository, so the operations the code uses are
  parameters of the model: comparison, the four operations, the conversion of an
  \<^verbatim>\<open>int\<close> to \<^verbatim>\<open>float\<close>, \<^verbatim>\<open>static_cast<uint8_t>\<close> of a \<^verbatim>\<open>float\<close>, and the value
  of a float literal, given by its bit pattern. The type \<open>'f\<close> is what a \<^verbatim>\<open>float\<close>
  variable holds: bit patterns (\<open>f32\<close>) in the two pipelines, which read floats from
  bytes and write them back, and real numbers where the arithmetic is taken exact.
\<close>

record 'f float_ops =
  f_less :: "'f \<Rightarrow> 'f \<Rightarrow> bool"
  f_add :: "'f \<Rightarrow> 'f \<Rightarrow> 'f"
  f_sub :: "'f \<Rightarrow> 'f \<Rightarrow> 'f"
  f_mul :: "'f \<Rightarrow> 'f \<Rightarrow> 'f"
  f_div :: "'f \<Rightarrow> 'f \<Rightarrow> 'f"
  f_of_int :: "int \<Rightarrow> 'f"
  f_to_u8 :: "'f \<Rightarrow> u8"
  f_literal :: "f32 \<Rightarrow> 'f"

text \<open>The literals \<^verbatim>\<open>0.0f\<close>, \<^verbatim>\<open>1.0f\<close>, \<^verbatim>\<open>255.0f\<close> and \<^verbatim>\<open>1e-8f\<close> as bit patterns.\<close>

definition f_zero :: f32 where "f_zero = 0x00000000"
definition f_one :: f32 where "f_one = 0x3F800000"
definition f_255 :: f32 where "f_255 = 0x437F0000"
definition f_1em8 :: f32 where "f_1em8 = 0x322BCC77"

text \<open>
  \<^verbatim>\<open>std::min_element\<close> and \<^verbatim>\<open>std::max_element\<close> keep the first extreme element, comparing
  with \<^verbatim>\<open><\<close>; \<^verbatim>\<open>std::clamp(v, lo, hi)\<close> is \<^verbatim>\<open>(v < lo) ? lo : (hi < v) ? hi : v\<close>.
\<close>

fun min_element :: "'f float_ops \<Rightarrow> 'f \<Rightarrow> 'f list \<Rightarrow> 'f" where
  "min_element fp smallest [] = smallest"
| "min_element fp smallest (x # xs) =
     min_element fp (if f_less fp x smallest then x else smallest) xs"

fun max_element :: "'f float_ops \<Rightarrow> 'f \<Rightarrow> 'f list \<Rightarrow> 'f" where
  "max_element fp largest [] = largest"
| "max_element fp largest (x # xs) =
     max_element fp (if f_less fp largest x then x else largest) xs"

definition clamp :: "'f float_ops \<Rightarrow> 'f \<Rightarrow> 'f \<Rightarrow> 'f \<Rightarrow> 'f" where
  "clamp fp v lo hi = (if f_less fp v lo then lo else if f_less fp hi v then hi else v)"

subsection \<open>8-bit quantizer (lines 67--94)\<close>

text \<open>
  \<open>out_min\<close> and \<open>out_max\<close> are reference parameters: the empty input leaves them as
  the caller initialised them.
\<close>

definition quantize_8bit :: "'f float_ops \<Rightarrow> 'f list \<Rightarrow> 'f \<Rightarrow> 'f \<Rightarrow> u8 list \<times> 'f \<times> 'f" where
  "quantize_8bit fp values out_min out_max =
     (if values = [] then ([], out_min, out_max)
      else
        let out_min = min_element fp (hd values) (tl values);
            out_max = max_element fp (hd values) (tl values);
            range = f_sub fp out_max out_min;
            range = (if f_less fp range (f_literal fp f_1em8) then f_literal fp f_one
                     else range)
        in (map (\<lambda>v. let normalized = f_div fp (f_sub fp v out_min) range
                       in f_to_u8 fp
                            (clamp fp (f_mul fp normalized (f_literal fp f_255))
                               (f_literal fp f_zero) (f_literal fp f_255)))
              values,
            out_min, out_max))"

definition dequantize_8bit :: "'f float_ops \<Rightarrow> u8 list \<Rightarrow> 'f \<Rightarrow> 'f \<Rightarrow> 'f list" where
  "dequantize_8bit fp quantized min_val max_val =
     (let range = f_sub fp max_val min_val
      in map (\<lambda>q. f_add fp min_val
                     (f_mul fp (f_div fp (f_of_int fp (uint q)) (f_literal fp f_255)) range))
           quantized)"

subsection \<open>Delta coder (lines 97--136)\<close>

text \<open>
  The body of the encoder's loop: \<^verbatim>\<open>delta\<close> is an \<^verbatim>\<open>int\<close> between -255 and 255,
  \<^verbatim>\<open>abs_delta\<close> its magnitude as a byte, of which the low seven bits are kept.
\<close>

definition delta_encode_step :: "u8 \<Rightarrow> u8 \<Rightarrow> u8" where
  "delta_encode_step prev cur =
     (let delta = uint cur - uint prev;
          abs_delta = (word_of_int \<bar>delta\<bar> :: u8);
          sign_bit = (if delta < 0 then 0x80 else 0x00 :: u8)
      in sign_bit OR (abs_delta AND 0x7F))"

function delta_encode_loop :: "u8 list \<Rightarrow> nat \<Rightarrow> u8 list \<Rightarrow> u8 list" where
  "delta_encode_loop data i encoded =
     (if i < length data
      then delta_encode_loop data (i + 1)
             (encoded @ [delta_encode_step (data ! (i - 1)) (data ! i)])
      else encoded)"
  by pat_completeness auto
termination
  by (relation "measure (\<lambda>(data, i, encoded). length data - i)") auto

declare delta_encode_loop.simps [simp del]

definition delta_encode_varbyte :: "u8 list \<Rightarrow> u8 list" where
  "delta_encode_varbyte data =
     (if data = [] then [] else delta_encode_loop data 1 [data ! 0])"

text \<open>
  The body of the decoder's loop: \<^verbatim>\<open>decoded.back() + delta\<close> is computed on \<^verbatim>\<open>int\<close>
  and cast back to a byte.
\<close>

definition delta_decode_step :: "u8 \<Rightarrow> u8 \<Rightarrow> u8" where
  "delta_decode_step back e =
     (let sign_bit = e AND 0x80;
          magnitude = e AND 0x7F;
          delta = (if sign_bit \<noteq> 0 then - uint magnitude else uint magnitude)
      in word_of_int (uint back + delta))"

function delta_decode_loop :: "u8 list \<Rightarrow> nat \<Rightarrow> u8 list \<Rightarrow> u8 list" where
  "delta_decode_loop encoded i decoded =
     (if i < length encoded
      then delta_decode_loop encoded (i + 1)
             (decoded @ [delta_decode_step (last decoded) (encoded ! i)])
      else decoded)"
  by pat_completeness auto
termination
  by (relation "measure (\<lambda>(encoded, i, decoded). length encoded - i)") auto

declare delta_decode_loop.simps [simp del]

definition delta_decode_varbyte :: "u8 list \<Rightarrow> u8 list" where
  "delta_decode_varbyte encoded =
     (if encoded = [] then [] else delta_decode_loop encoded 1 [encoded ! 0])"

subsection \<open>Run-length codec (lines 139--207)\<close>

text \<open>
  Both scanning loops of the encoder have the shape
  \<^verbatim>\<open>while (i + n < data.size() && data[i + n] == data[i] && n < limit) n++;\<close>
  with \<open>limit\<close> 255 for \<^verbatim>\<open>run_length\<close> and 4 for \<^verbatim>\<open>peek_run\<close>. Indices are
  \<^verbatim>\<open>size_t\<close>; they stay below twice the size of a vector, so they are natural numbers
  here.
\<close>

function same_run :: "u8 list \<Rightarrow> nat \<Rightarrow> nat \<Rightarrow> nat \<Rightarrow> nat" where
  "same_run data i limit n =
     (if i + n < length data \<and> data ! (i + n) = data ! i \<and> n < limit
      then same_run data i limit (n + 1)
      else n)"
  by pat_completeness auto
termination
  by (relation "measure (\<lambda>(data, i, limit, n). limit - n)") auto

declare same_run.simps [simp del]

text \<open>
  The literal loop (lines 162--172); it returns the advanced \<^verbatim>\<open>i\<close> and
  \<^verbatim>\<open>lit_length\<close>.
\<close>

function literal_loop :: "u8 list \<Rightarrow> nat \<Rightarrow> nat \<Rightarrow> nat \<times> nat" where
  "literal_loop data i lit_length =
     (if i < length data \<and> lit_length < 255
      then (let peek_run = same_run data i 4 1
            in if peek_run \<ge> 4 then (i, lit_length)
               else literal_loop data (i + 1) (lit_length + 1))
      else (i, lit_length))"
  by pat_completeness auto
termination
  by (relation "measure (\<lambda>(data, i, lit_length). 255 - lit_length)") auto

declare literal_loop.simps [simp del]

text \<open>
  The outer loop of the encoder advances in both branches: a run has at least four
  bytes, and where \<^verbatim>\<open>run_length\<close> stayed below four \<^verbatim>\<open>peek_run\<close> does so too, so the
  literal loop takes at least one byte.
\<close>

lemma same_run_ge: "n \<le> same_run data i limit n"
proof (induction data i limit n rule: same_run.induct)
  case (1 data i limit n)
  show ?case
  proof (cases "i + n < length data \<and> data ! (i + n) = data ! i \<and> n < limit")
    case True
    with 1 have "n + 1 \<le> same_run data i limit (n + 1)" by simp
    with True show ?thesis by (subst same_run.simps) simp
  next
    case False
    then show ?thesis by (subst same_run.simps) auto
  qed
qed

lemma peek_run_le_run_length: "n \<le> 4 \<Longrightarrow> same_run data i 4 n \<le> same_run data i 255 n"
proof (induction data i "4 :: nat" n rule: same_run.induct)
  case (1 data i n)
  show ?case
  proof (cases "i + n < length data \<and> data ! (i + n) = data ! i \<and> n < 4")
    case True
    with 1 have "same_run data i 4 (n + 1) \<le> same_run data i 255 (n + 1)" by simp
    moreover have "same_run data i 4 n = same_run data i 4 (n + 1)"
      using True by (subst same_run.simps) simp
    moreover have "same_run data i 255 n = same_run data i 255 (n + 1)"
      using True by (subst same_run.simps) simp
    ultimately show ?thesis by simp
  next
    case False
    then have "same_run data i 4 n = n" by (subst same_run.simps) auto
    then show ?thesis by (simp add: same_run_ge)
  qed
qed

lemma literal_loop_fst_ge: "i \<le> fst (literal_loop data i lit_length)"
proof (induction data i lit_length rule: literal_loop.induct)
  case (1 data i lit_length)
  show ?case
  proof (cases "i < length data \<and> lit_length < 255 \<and> \<not> same_run data i 4 1 \<ge> 4")
    case True
    with 1 have "i + 1 \<le> fst (literal_loop data (i + 1) (lit_length + 1))" by simp
    with True show ?thesis by (subst literal_loop.simps) (simp add: Let_def)
  next
    case False
    then show ?thesis by (subst literal_loop.simps) (auto simp: Let_def)
  qed
qed

lemma literal_loop_advances:
  assumes "i < length data" "\<not> same_run data i 255 1 \<ge> 4"
  shows "i < fst (literal_loop data i 0)"
proof -
  have "\<not> same_run data i 4 1 \<ge> 4"
    using assms(2) peek_run_le_run_length [of 1 data i] by simp
  then have "literal_loop data i 0 = literal_loop data (i + 1) 1"
    using assms(1) by (subst literal_loop.simps) (simp add: Let_def)
  then show ?thesis
    using literal_loop_fst_ge [of "i + 1" data 1] by simp
qed

function compress_rle_loop :: "u8 list \<Rightarrow> nat \<Rightarrow> u8 list \<Rightarrow> u8 list" where
  "compress_rle_loop data i compressed =
     (if i < length data
      then (let run_length = same_run data i 255 1
            in if run_length \<ge> 4
               then compress_rle_loop data (i + run_length)
                      (compressed @ [0xFF, of_nat run_length, data ! i])
               else (let lit_start = i;
                         lit_length = snd (literal_loop data i 0)
                     in compress_rle_loop data (fst (literal_loop data i 0))
                          (compressed @ [of_nat lit_length] @
                           take lit_length (drop lit_start data))))
      else compressed)"
  by pat_completeness auto
termination
proof (relation "measure (\<lambda>(data, i, compressed). length data - i)")
  show "wf (measure (\<lambda>(data, i, compressed). length data - i))" by simp
next
  fix data :: "u8 list" and i :: nat and compressed :: "u8 list" and run_length
  assume "i < length data" "run_length = same_run data i 255 1" "4 \<le> run_length"
  then show "((data, i + run_length, compressed @ [0xFF, of_nat run_length, data ! i]),
              (data, i, compressed)) \<in> measure (\<lambda>(data, i, compressed). length data - i)"
    by simp
next
  fix data :: "u8 list" and i :: nat and compressed :: "u8 list" and run_length lit_start lit_length
  assume "i < length data" "run_length = same_run data i 255 1" "\<not> 4 \<le> run_length"
  then have "i < fst (literal_loop data i 0)"
    using literal_loop_advances by simp
  with \<open>i < length data\<close>
  show "((data, fst (literal_loop data i 0),
          compressed @ [of_nat lit_length] @ take lit_length (drop lit_start data)),
         (data, i, compressed)) \<in> measure (\<lambda>(data, i, compressed). length data - i)"
    by simp
qed

declare compress_rle_loop.simps [simp del]

definition compress_rle :: "u8 list \<Rightarrow> u8 list" where
  "compress_rle data = compress_rle_loop data 0 []"

text \<open>
  The decoder (lines 184--207). \<^verbatim>\<open>data.insert(data.end(), length, value)\<close> appends
  \<open>length\<close> copies; the literal branch appends the \<open>length\<close> bytes after the length
  byte, and the loop stops at a record that the remaining bytes cannot hold.
\<close>

function decompress_rle_loop :: "u8 list \<Rightarrow> nat \<Rightarrow> u8 list \<Rightarrow> u8 list" where
  "decompress_rle_loop compressed i data =
     (if i < length compressed
      then (if compressed ! i = 0xFF \<and> i + 2 < length compressed
            then (let len = unat (compressed ! (i + 1));
                      v = compressed ! (i + 2)
                  in decompress_rle_loop compressed (i + 3) (data @ replicate len v))
            else (let len = unat (compressed ! i)
                  in if i + len < length compressed
                     then decompress_rle_loop compressed (i + len + 1)
                            (data @ take len (drop (i + 1) compressed))
                     else data))
      else data)"
  by pat_completeness auto
termination
  by (relation "measure (\<lambda>(compressed, i, data). length compressed - i)") auto

declare decompress_rle_loop.simps [simp del]

definition decompress_rle :: "u8 list \<Rightarrow> u8 list" where
  "decompress_rle compressed = decompress_rle_loop compressed 0 []"

subsection \<open>compress (lines 210--304)\<close>

text \<open>
  \<open>words_of n bytes\<close> is the \<^verbatim>\<open>memcpy\<close> of \<open>4 * n\<close> bytes into a vector of \<open>n\<close>
  32-bit elements, \<open>halves_of\<close> the same for 16-bit elements.
\<close>

fun words_of :: "nat \<Rightarrow> u8 list \<Rightarrow> u32 list" where
  "words_of 0 bytes = []"
| "words_of (Suc n) bytes = load_u32 bytes # words_of n (drop 4 bytes)"

fun halves_of :: "nat \<Rightarrow> u8 list \<Rightarrow> u16 list" where
  "halves_of 0 bytes = []"
| "halves_of (Suc n) bytes = load_u16 bytes # halves_of n (drop 2 bytes)"

text \<open>
  The input file is split at \<^verbatim>\<open>file_data.begin() + 8 + json_header_size\<close>. The only
  check before it is \<^verbatim>\<open>file_size < 8\<close>; an offset beyond the end of the vector is an
  out-of-range iterator. \<^verbatim>\<open>json_header_size\<close> is a \<^verbatim>\<open>uint64_t\<close>, so the offset is
  computed modulo \<open>2 ^ 64\<close>. The payload is copied whole into a vector of
  \<^verbatim>\<open>tensor_bytes.size() / 4\<close> floats: when the size is not a multiple of four the
  \<^verbatim>\<open>memcpy\<close> writes past the end of that vector.
\<close>

definition compress :: "f32 float_ops \<Rightarrow> u8 list \<Rightarrow> bool \<Rightarrow> u8 list outcome" where
  "compress fp file_data use_8bit =
     (let file_size = length file_data
      in if file_size < 8 then Returned_false
         else
           let json_header_size = load_u64 file_data;
               split = unat (8 + json_header_size)
           in if file_size < split then Undefined_behaviour
              else
                let header = take split file_data;
                    tensor_bytes = drop split file_data;
                    num_floats = length tensor_bytes div 4
                in if num_floats * 4 < length tensor_bytes then Undefined_behaviour
                   else
                     let floats = words_of num_floats tensor_bytes;
                         (compressed_tensors, min_val, max_val) =
                           (if use_8bit
                            then (let (quantized, min_val, max_val) =
                                        quantize_8bit fp floats f_zero f_zero;
                                      delta_encoded = delta_encode_varbyte quantized
                                  in (compress_rle delta_encoded, min_val, max_val))
                            else (let f16_values = map f32_to_f16 floats;
                                      f16_bytes = concat (map store_u16 f16_values)
                                  in (compress_rle f16_bytes, f_zero, f_zero)));
                         hdr = \<lparr>original_size = of_nat file_size,
                                json_header_size = json_header_size,
                                num_tensors = of_nat num_floats,
                                compression_method = (if use_8bit then 1 else 0),
                                min_value = min_val,
                                max_value = max_val\<rparr>;
                         compressed_size = (of_nat (length compressed_tensors) :: u64)
                     in Returned_true
                          (store_Header hdr @ header @ store_u64 compressed_size @
                           compressed_tensors))"

subsection \<open>decompress (lines 306--365)\<close>

text \<open>
  The two decoding branches (lines 325--348), from the compressed bytes to the tensor
  bytes. In the float16 branch the decoded bytes are copied whole into a vector of
  \<^verbatim>\<open>f16_bytes.size() / 2\<close> elements: an odd number of bytes writes past its end.
\<close>

definition decode_tensor_bytes :: "f32 float_ops \<Rightarrow> Header \<Rightarrow> u8 list \<Rightarrow> u8 list outcome" where
  "decode_tensor_bytes fp hdr compressed =
     (if compression_method hdr = 1
      then (let delta_encoded = decompress_rle compressed;
                quantized = delta_decode_varbyte delta_encoded;
                floats = dequantize_8bit fp quantized (min_value hdr) (max_value hdr)
            in Returned_true (concat (map store_u32 floats)))
      else (let f16_bytes = decompress_rle compressed
            in if (length f16_bytes div 2) * 2 < length f16_bytes then Undefined_behaviour
               else
                 let f16_values = halves_of (length f16_bytes div 2) f16_bytes;
                     floats = map f16_to_f32 f16_values
                 in Returned_true (concat (map store_u32 floats))))"

text \<open>
  No read of the input stream is checked. \<^verbatim>\<open>hdr\<close> and \<^verbatim>\<open>compressed_size\<close> are
  uninitialised variables: a short read of either leaves (part of) it indeterminate and
  the code goes on to use it. The two vectors \<^verbatim>\<open>header\<close> and \<^verbatim>\<open>compressed\<close> are sized
  by numbers read from the container and zero-initialised before they are read into.
  The fields \<^verbatim>\<open>original_size\<close> and \<^verbatim>\<open>num_tensors\<close> are never read, and the only
  \<^verbatim>\<open>return false\<close> after the input file is open is the one for an output file that
  cannot be opened.
\<close>

definition decompress :: "environment \<Rightarrow> f32 float_ops \<Rightarrow> u8 list \<Rightarrow> u8 list outcome" where
  "decompress env fp file =
     (let input = \<lparr>unread = file, failbit = False\<rparr>;
          (hdr_bytes, input) = stream_read 32 input
      in if length hdr_bytes < 32 then Undefined_behaviour
         else
           let hdr = load_Header hdr_bytes;
               header_size = unat (8 + json_header_size hdr)
           in if \<not> allocates env header_size then Aborted
              else
                let (got, input) = stream_read header_size input;
                    header = zero_filled header_size got;
                    (size_bytes, input) = stream_read 8 input
                in if length size_bytes < 8 then Undefined_behaviour
                   else
                     let compressed_size = unat (load_u64 size_bytes)
                     in if \<not> allocates env compressed_size then Aborted
                        else
                          let (got, input) = stream_read compressed_size input;
                              compressed = zero_filled compressed_size got
                          in (case decode_tensor_bytes fp hdr compressed of
                                Returned_true tensor_bytes \<Rightarrow>
                                  if output_opens env
                                  then Returned_true (header @ tensor_bytes)
                                  else Returned_false
                              | Returned_false \<Rightarrow> Returned_false
                              | Undefined_behaviour \<Rightarrow> Undefined_behaviour
                              | Aborted \<Rightarrow> Aborted))"

section \<open>The lossless codec (codec\_4.cpp)\<close>

subsection \<open>XOR-delta transform (lines 37--49)\<close>

text \<open>
  \<^verbatim>\<open>for (size_t i = data.size() - 1; i > 0; i--) data[i] ^= data[i - 1];\<close>
  The vector is updated in place; the loop counter runs from the last index down to 1.
  \<open>xor_encode_loop data i\<close> is the loop entered with counter \<open>i\<close>.
\<close>

fun xor_encode_loop :: "u32 list \<Rightarrow> nat \<Rightarrow> u32 list" where
  "xor_encode_loop data 0 = data"
| "xor_encode_loop data (Suc j) =
     xor_encode_loop (data[Suc j := data ! Suc j XOR data ! j]) j"

definition xor_delta_encode_inplace_u32 :: "u32 list \<Rightarrow> u32 list" where
  "xor_delta_encode_inplace_u32 data =
     (if length data \<le> 1 then data else xor_encode_loop data (length data - 1))"

text \<open>
  \<^verbatim>\<open>for (size_t i = 1; i < data.size(); i++) data[i] ^= data[i - 1];\<close>
\<close>

function xor_decode_loop :: "u32 list \<Rightarrow> nat \<Rightarrow> u32 list" where
  "xor_decode_loop data i =
     (if i < length data
      then xor_decode_loop (data[i := data ! i XOR data ! (i - 1)]) (i + 1)
      else data)"
  by pat_completeness auto
termination
  by (relation "measure (\<lambda>(data, i). length data - i)") auto

definition xor_delta_decode_inplace_u32 :: "u32 list \<Rightarrow> u32 list" where
  "xor_delta_decode_inplace_u32 data =
     (if length data \<le> 1 then data else xor_decode_loop data 1)"

subsection \<open>Container headers (lines 24--35)\<close>

text \<open>
  \<^verbatim>\<open>Header\<close> of this codec is 8 + 8 + 4 + 4 + 8 = 32 bytes and \<^verbatim>\<open>BlockHeader\<close>
  8 + 8 = 16 bytes, without padding. The fields carry a prefix here, since the lossy
  codec's \<^verbatim>\<open>Header\<close> has fields of the same names.
\<close>

record LHeader =
  l_original_size :: u64
  l_json_header_size :: u64
  l_num_floats :: u32
  l_num_blocks :: u32
  l_compressed_tensor_size :: u64

record BlockHeader =
  b_compressed_size :: u64
  b_original_size :: u64

definition store_LHeader :: "LHeader \<Rightarrow> u8 list" where
  "store_LHeader hdr =
     store_u64 (l_original_size hdr) @ store_u64 (l_json_header_size hdr) @
     store_u32 (l_num_floats hdr) @ store_u32 (l_num_blocks hdr) @
     store_u64 (l_compressed_tensor_size hdr)"

definition load_LHeader :: "u8 list \<Rightarrow> LHeader" where
  "load_LHeader bs =
     \<lparr>l_original_size = load_u64 bs,
      l_json_header_size = load_u64 (drop 8 bs),
      l_num_floats = load_u32 (drop 16 bs),
      l_num_blocks = load_u32 (drop 20 bs),
      l_compressed_tensor_size = load_u64 (drop 24 bs)\<rparr>"

definition store_BlockHeader :: "BlockHeader \<Rightarrow> u8 list" where
  "store_BlockHeader bh = store_u64 (b_compressed_size bh) @ store_u64 (b_original_size bh)"


subsection \<open>Entropy backend (lines 52--82)\<close>

text \<open>
  zstd is an external library. Its two entry points and the number of hardware threads
  are parameters: \<open>ZSTD_compress2 src level workers ldm\<close> and
  \<open>ZSTD_decompress src capacity\<close> give the bytes written, or \<open>None\<close> for an error code
  (a compression context that cannot be created counts as one;
  \<^verbatim>\<open>workers > 0 ? workers : 0\<close> is \<open>workers\<close> itself on natural numbers). The wrappers return
  the empty vector on error; \<^verbatim>\<open>zstd_decompress\<close> returns its whole zero-initialised
  buffer of \<^verbatim>\<open>original_size\<close> bytes otherwise.
\<close>

record backend =
  ZSTD_compress2 :: "u8 list \<Rightarrow> int \<Rightarrow> nat \<Rightarrow> bool \<Rightarrow> u8 list option"
  ZSTD_decompress :: "u8 list \<Rightarrow> nat \<Rightarrow> u8 list option"
  hardware_concurrency :: nat

definition zstd_compress_mt :: "backend \<Rightarrow> u8 list \<Rightarrow> int \<Rightarrow> nat \<Rightarrow> bool \<Rightarrow> u8 list" where
  "zstd_compress_mt bk data level workers enableLDM =
     (case ZSTD_compress2 bk data level workers enableLDM of
        None \<Rightarrow> []
      | Some out \<Rightarrow> out)"


subsection \<open>Half-precision conversion (lines 85--127)\<close>

definition float32_to_float16 :: "f32 \<Rightarrow> u16" where
  "float32_to_float16 f32 =
     (let sign = drop_bit 16 f32 AND 0x8000;
          exp = uint (drop_bit 23 f32 AND 0xff) - 127;
          mantissa = f32 AND 0x7fffff
      in if exp \<le> -15 then ucast sign
         else if exp \<ge> 16 then ucast (sign OR 0x7c00)
         else
           let exp = exp + 15;
               mantissa = drop_bit 13 mantissa
           in ucast (sign OR word_of_int (push_bit 10 exp) OR mantissa))"

definition float16_to_float32 :: "u16 \<Rightarrow> f32" where
  "float16_to_float32 f16 =
     (let sign = push_bit 16 (ucast (f16 AND 0x8000) :: u32);
          exp = uint (drop_bit 10 f16 AND 0x1f);
          mantissa = (ucast (f16 AND 0x3ff) :: u32)
      in if exp = 0 then (if mantissa = 0 then sign else 0x00000000)
         else if exp = 31 then sign OR 0x7f800000 OR push_bit 13 mantissa
         else
           let exp = exp - 15 + 127
           in sign OR word_of_int (push_bit 23 exp) OR push_bit 13 mantissa)"

subsection \<open>compress\_lossless (lines 183--256)\<close>

text \<open>
  The split is guarded by \<^verbatim>\<open>8 + header_size > file_size\<close>, a comparison of
  \<^verbatim>\<open>uint64_t\<close> values whose left side is computed modulo \<open>2 ^ 64\<close>. The metadata
  written to the container is \<^verbatim>\<open>header_data\<close>, the bytes of the input from its
  beginning up to the split, and the header field \<^verbatim>\<open>json_header_size\<close> is the size of
  \<^verbatim>\<open>header_data\<close>. As in the lossy codec the payload is copied whole into a vector of
  \<^verbatim>\<open>tensor_bytes.size() / 4\<close> words.
\<close>

definition compress_lossless :: "backend \<Rightarrow> u8 list \<Rightarrow> u8 list outcome" where
  "compress_lossless bk data =
     (let file_size = length data
      in if file_size < 8 then Returned_false
         else
           let header_size = load_u64 data
           in if unat (8 + header_size) > file_size then Returned_false
              else
                let split = unat (8 + header_size);
                    header_data = take split data;
                    tensor_bytes = drop split data;
                    num_floats = length tensor_bytes div 4
                in if num_floats * 4 < length tensor_bytes then Undefined_behaviour
                   else
                     let u32 = words_of num_floats tensor_bytes;
                         u32 = xor_delta_encode_inplace_u32 u32;
                         workers = hardware_concurrency bk;
                         workers = (if workers = 0 then 4 else workers);
                         compressed =
                           zstd_compress_mt bk (concat (map store_u32 u32)) 10 workers True
                     in if compressed = [] then Returned_false
                        else
                          let hdr = \<lparr>l_original_size = of_nat file_size,
                                     l_json_header_size = of_nat (length header_data),
                                     l_num_floats = of_nat num_floats,
                                     l_num_blocks = 1,
                                     l_compressed_tensor_size = of_nat (length compressed + 16)\<rparr>;
                              bh = \<lparr>b_compressed_size = of_nat (length compressed),
                                    b_original_size = of_nat (length u32 * 4)\<rparr>
                          in Returned_true
                               (store_LHeader hdr @ header_data @ store_BlockHeader bh @
                                compressed))"

subsection \<open>decompress\_lossless (lines 258--303)\<close>


section \<open>Input conditions of the claims\<close>

text \<open>
  The delta coder's precondition: the difference between each byte and its predecessor,
  as signed integers, has magnitude at most 127.
\<close>

fun small_deltas :: "u8 list \<Rightarrow> bool" where
  "small_deltas (a # b # xs) = (\<bar>uint b - uint a\<bar> \<le> 127 \<and> small_deltas (b # xs))"
| "small_deltas xs = True"

text \<open>
  The exponent of a float rebiased for half precision, as both encoders compute it
  (\<^verbatim>\<open>((bits >> 23) & 0xff) - 127 + 15\<close>), the sign of a float as a signed zero, and
  the same sign moved to bit 15 of a half.
\<close>

definition rebiased_exponent :: "f32 \<Rightarrow> int" where
  "rebiased_exponent bits = uint (drop_bit 23 bits AND 0xff) - 127 + 15"

definition f32_sign :: "f32 \<Rightarrow> f32" where
  "f32_sign bits = bits AND 0x80000000"

definition f16_sign :: "f32 \<Rightarrow> u16" where
  "f16_sign bits = ucast (drop_bit 16 bits AND 0x8000)"

text \<open>
  The run-length encoder's output is a sequence of segments, run records and literal
  segments. \<open>rle_segments\<close> follows the loops of \<open>compress_rle\<close> and records the
  segment each iteration emits (\<open>compress_rle_loop_segments\<close> below shows that the
  encoder's bytes are those of the segments, in order). \<open>emits_literal_255\<close> says
  that some literal segment has exactly 255 bytes.
\<close>

datatype segment = Run nat u8 | Literal "u8 list"

function rle_segments_loop :: "u8 list \<Rightarrow> nat \<Rightarrow> segment list" where
  "rle_segments_loop data i =
     (if i < length data
      then (let run_length = same_run data i 255 1
            in if run_length \<ge> 4
               then Run run_length (data ! i) # rle_segments_loop data (i + run_length)
               else (let lit_length = snd (literal_loop data i 0)
                     in Literal (take lit_length (drop i data)) #
                        rle_segments_loop data (fst (literal_loop data i 0))))
      else [])"
  by pat_completeness auto
termination
proof (relation "measure (\<lambda>(data, i). length data - i)")
  show "wf (measure (\<lambda>(data, i). length data - i))" by simp
next
  fix data :: "u8 list" and i :: nat and run_length
  assume "i < length data" "run_length = same_run data i 255 1" "4 \<le> run_length"
  then show "((data, i + run_length), (data, i)) \<in> measure (\<lambda>(data, i). length data - i)"
    by simp
next
  fix data :: "u8 list" and i :: nat and run_length lit_length
  assume "i < length data" "run_length = same_run data i 255 1" "\<not> 4 \<le> run_length"
  then have "i < fst (literal_loop data i 0)"
    using literal_loop_advances by simp
  with \<open>i < length data\<close>
  show "((data, fst (literal_loop data i 0)), (data, i)) \<in> measure (\<lambda>(data, i). length data - i)"
    by simp
qed

declare rle_segments_loop.simps [simp del]

definition rle_segments :: "u8 list \<Rightarrow> segment list" where
  "rle_segments data = rle_segments_loop data 0"

fun segment_bytes :: "segment \<Rightarrow> u8 list" where
  "segment_bytes (Run n v) = [0xFF, of_nat n, v]"
| "segment_bytes (Literal l) = of_nat (length l) # l"

fun segment_data :: "segment \<Rightarrow> u8 list" where
  "segment_data (Run n v) = replicate n v"
| "segment_data (Literal l) = l"

fun is_literal_255 :: "segment \<Rightarrow> bool" where
  "is_literal_255 (Literal l) = (length l = 255)"
| "is_literal_255 (Run n v) = False"

definition emits_literal_255 :: "u8 list \<Rightarrow> bool" where
  "emits_literal_255 data = list_ex is_literal_255 (rle_segments data)"

text \<open>
  \<open>longest_run\<close> is the length of the longest run of equal adjacent bytes.
\<close>

fun run_from :: "u8 \<Rightarrow> u8 list \<Rightarrow> nat" where
  "run_from v [] = 0"
| "run_from v (x # xs) = (if x = v then Suc (run_from v xs) else 0)"

fun longest_run :: "u8 list \<Rightarrow> nat" where
  "longest_run [] = 0"
| "longest_run (x # xs) = max (Suc (run_from x xs)) (longest_run xs)"

section \<open>Exact arithmetic for the quantizer\<close>

text \<open>
  The number a finite single-precision bit pattern stands for: sign, an 8-bit exponent
  with bias 127 and a 23-bit mantissa, with the implicit leading one except for exponent
  field 0. (Exponent field 255, the infinities and NaNs, is not a number; no literal of
  the code has it.)
\<close>

definition f32_value :: "f32 \<Rightarrow> real" where
  "f32_value bits =
     (let sign = (if bit bits 31 then - 1 else 1 :: real);
          e = unat (drop_bit 23 bits AND 0xff);
          m = unat (bits AND 0x7fffff)
      in if e = 0 then sign * real m / 2 ^ 149
         else if e < 150 then sign * real (2 ^ 23 + m) / 2 ^ (150 - e)
         else sign * real (2 ^ 23 + m) * 2 ^ (e - 150))"

text \<open>
  Exact arithmetic: a \<^verbatim>\<open>float\<close> is a real number, the operations are those of the
  reals, a literal has the value of its bit pattern, and \<^verbatim>\<open>static_cast<uint8_t>\<close>
  truncates towards zero. This is single-precision arithmetic without its rounding.
\<close>

definition exact_float_ops :: "real float_ops" where
  "exact_float_ops =
     \<lparr>f_less = (\<lambda>a b. a < b), f_add = (\<lambda>a b. a + b), f_sub = (\<lambda>a b. a - b),
      f_mul = (\<lambda>a b. a * b), f_div = (\<lambda>a b. a / b), f_of_int = of_int,
      f_to_u8 = (\<lambda>x. word_of_int (if 0 \<le> x then \<lfloor>x\<rfloor> else \<lceil>x\<rceil>)),
      f_literal = f32_value\<rparr>"



section \<open>Instances of the parameters and readers of a container\<close>

text \<open>
  Closed evaluations need values for the parameters. \<open>sample_float_ops\<close> stands in for
  the float arithmetic on paths whose result does not depend on it; \<open>sample_backend\<close>
  is a backend that stores its input behind a marker byte; \<open>sample_environment\<close> has
  one gibibyte of memory and an output file that opens.
\<close>

definition sample_float_ops :: "f32 float_ops" where
  "sample_float_ops =
     \<lparr>f_less = (\<lambda>a b. a < b), f_add = (\<lambda>a b. a + b), f_sub = (\<lambda>a b. a - b),
      f_mul = (\<lambda>a b. a * b), f_div = (\<lambda>a b. a div b), f_of_int = word_of_int,
      f_to_u8 = ucast, f_literal = (\<lambda>bits. bits)\<rparr>"

definition sample_environment :: environment where
  "sample_environment = \<lparr>memory_limit = 2 ^ 30, output_opens = True\<rparr>"

definition sample_backend :: backend where
  "sample_backend =
     \<lparr>ZSTD_compress2 = (\<lambda>src level workers ldm. Some (0x28 # src)),
      ZSTD_decompress = (\<lambda>src capacity. case src of [] \<Rightarrow> None | m # written \<Rightarrow>
         if m = 0x28 \<and> length written \<le> capacity then Some written else None),
      hardware_concurrency = 4\<rparr>"

text \<open>
  The metadata section of a container, as each decoder reads it: the bytes after the
  32-byte header, \<^verbatim>\<open>hdr.json_header_size\<close> of them in the lossless decoder and
  \<^verbatim>\<open>8 + hdr.json_header_size\<close> in the lossy one. \<open>output_of\<close> is the file an
  entry point wrote (nothing unless it returned \<^verbatim>\<open>true\<close>).
\<close>

definition lossless_metadata :: "u8 list \<Rightarrow> u8 list" where
  "lossless_metadata container =
     take (unat (l_json_header_size (load_LHeader container))) (drop 32 container)"

definition lossy_metadata :: "u8 list \<Rightarrow> u8 list" where
  "lossy_metadata container =
     take (unat (8 + json_header_size (load_Header container))) (drop 32 container)"

definition output_of :: "u8 list outcome \<Rightarrow> u8 list" where
  "output_of r = (case r of Returned_true out \<Rightarrow> out | _ \<Rightarrow> [])"

section \<open>XOR-delta: the round trip\<close>

lemma xor_encode_loop_length: "length (xor_encode_loop data j) = length data"
  by (induction data j rule: xor_encode_loop.induct) simp_all

lemma xor_encode_loop_nth:
  "j < length data \<Longrightarrow> k < length data \<Longrightarrow>
   xor_encode_loop data j ! k =
     (if 0 < k \<and> k \<le> j then data ! k XOR data ! (k - 1) else data ! k)"
proof (induction data j arbitrary: k rule: xor_encode_loop.induct)
  case (1 data)
  then show ?case by auto
next
  case (2 data j)
  let ?d = "data[Suc j := data ! Suc j XOR data ! j]"
  have "xor_encode_loop ?d j ! k =
      (if 0 < k \<and> k \<le> j then ?d ! k XOR ?d ! (k - 1) else ?d ! k)"
    using 2 by simp
  then show ?case
    using 2 by (auto simp: nth_list_update le_Suc_eq)
qed

lemma xor_decode_loop_length: "length (xor_decode_loop data i) = length data"
proof (induction data i rule: xor_decode_loop.induct)
  case (1 data i)
  then show ?case by (cases "i < length data") simp_all
qed

lemma xor_decode_loop_restores:
  "length d = length w \<Longrightarrow> 0 < i \<Longrightarrow>
   \<forall>k < length w. d ! k = (if k < i then w ! k else w ! k XOR w ! (k - 1)) \<Longrightarrow>
   xor_decode_loop d i = w"
proof (induction d i rule: xor_decode_loop.induct)
  case (1 d i)
  show ?case
  proof (cases "i < length d")
    case False
    with 1(2,4) have "\<forall>k < length w. d ! k = w ! k" by simp
    with 1(2) have "d = w" by (simp add: nth_equalityI)
    with False show ?thesis by simp
  next
    case True
    let ?d = "d[i := d ! i XOR d ! (i - 1)]"
    have di: "d ! i = w ! i XOR w ! (i - 1)" and dp: "d ! (i - 1) = w ! (i - 1)"
      using 1(2,3,4) True by simp_all
    have step: "?d ! i = w ! i"
      using True di dp by (simp add: xor.assoc)
    have "\<forall>k < length w. ?d ! k = (if k < i + 1 then w ! k else w ! k XOR w ! (k - 1))"
      using 1(2,4) True step by (auto simp: nth_list_update less_Suc_eq)
    with 1(1) [OF True] 1(2) have "xor_decode_loop ?d (i + 1) = w" by simp
    with True show ?thesis by simp
  qed
qed

text \<open>
  Claim C1. For every sequence of 32-bit words, the empty and the singleton sequence
  included, decoding the XOR-delta encoding gives the sequence back, bit for bit.
\<close>

theorem xor_delta_roundtrip:
  "xor_delta_decode_inplace_u32 (xor_delta_encode_inplace_u32 w) = w"
proof (cases "length w \<le> 1")
  case True
  then show ?thesis
    by (simp add: xor_delta_decode_inplace_u32_def xor_delta_encode_inplace_u32_def)
next
  case False
  let ?e = "xor_encode_loop w (length w - 1)"
  have len: "length ?e = length w" by (rule xor_encode_loop_length)
  have "\<forall>k < length w. ?e ! k = (if k < 1 then w ! k else w ! k XOR w ! (k - 1))"
    using False by (auto simp: xor_encode_loop_nth)
  then have "xor_decode_loop ?e 1 = w"
    using len by (intro xor_decode_loop_restores) simp_all
  with False len show ?thesis
    by (simp add: xor_delta_decode_inplace_u32_def xor_delta_encode_inplace_u32_def)
qed

section \<open>Delta coder: the round trip\<close>

lemma mask7: "(0x7F :: u8) = mask 7"
  by (simp add: mask_eq_exp_minus_1)

lemma bit_128_int: "bit (128 :: int) n \<longleftrightarrow> n = 7"
proof -
  have "(128 :: int) = 2 ^ 7" by simp
  then show ?thesis by (simp only: bit_exp_iff) auto
qed

lemma low7_bits: "take_bit 7 w = w \<Longrightarrow> bit w n \<Longrightarrow> n < 7"
  for w :: u8
  by (metis bit_take_bit_iff)

lemma signed_low7: "take_bit 7 w = w \<Longrightarrow> ((0x80 :: u8) OR w) AND 0x7F = w"
  unfolding mask7 by (rule bit_eqI) (auto simp: bit_simps bit_128_int dest: low7_bits)

lemma signed_high: "take_bit 7 w = w \<Longrightarrow> ((0x80 :: u8) OR w) AND 0x80 = 0x80"
  by (rule bit_eqI) (auto simp: bit_simps bit_128_int)

lemma unsigned_high: "take_bit 7 w = w \<Longrightarrow> w AND 0x80 = (0 :: u8)"
  by (rule bit_eqI) (auto simp: bit_simps bit_128_int dest: low7_bits)

lemma magnitude_fits:
  assumes "0 \<le> m" "m \<le> 127"
  shows "(word_of_int m :: u8) AND 0x7F = word_of_int m"
    and "take_bit 7 (word_of_int m :: u8) = word_of_int m"
    and "uint (word_of_int m :: u8) = m"
proof -
  from assms have "take_bit 7 m = m" by (simp add: take_bit_int_eq_self)
  then show t: "take_bit 7 (word_of_int m :: u8) = word_of_int m"
    unfolding take_bit_of_int by simp
  then show "(word_of_int m :: u8) AND 0x7F = word_of_int m"
    by (simp add: mask7 flip: take_bit_eq_mask)
  from assms show "uint (word_of_int m :: u8) = m"
    by (simp add: uint_word_of_int take_bit_int_eq_self)
qed

lemma delta_step_inverse:
  assumes "\<bar>uint b - uint a\<bar> \<le> 127"
  shows "delta_decode_step a (delta_encode_step a b) = b"
proof -
  define m where "m = \<bar>uint b - uint a\<bar>"
  define w where "w = (word_of_int m :: u8)"
  have m: "0 \<le> m" "m \<le> 127" using assms by (simp_all add: m_def)
  have fits: "w AND 0x7F = w" "take_bit 7 w = w" "uint w = m"
    unfolding w_def by (rule magnitude_fits [OF m])+
  show ?thesis
  proof (cases "uint b - uint a < 0")
    case True
    have enc: "delta_encode_step a b = 0x80 OR w"
      unfolding delta_encode_step_def Let_def m_def [symmetric] w_def [symmetric]
      using True by (simp only: if_True fits)
    have "delta_decode_step a (0x80 OR w) = word_of_int (uint a - uint w)"
      unfolding delta_decode_step_def Let_def
      by (simp only: signed_low7 [OF fits(2)] signed_high [OF fits(2)]) simp
    also have "uint w = uint a - uint b" using True fits(3) by (simp add: m_def)
    finally show ?thesis by (simp add: enc)
  next
    case False
    have enc: "delta_encode_step a b = w"
      unfolding delta_encode_step_def Let_def m_def [symmetric] w_def [symmetric]
      using False by (simp only: if_False fits) simp
    have "delta_decode_step a w = word_of_int (uint a + uint w)"
      unfolding delta_decode_step_def Let_def
      by (simp only: unsigned_high [OF fits(2)] fits(1)) simp
    also have "uint w = uint b - uint a" using False fits(3) by (simp add: m_def)
    finally show ?thesis by (simp add: enc)
  qed
qed

lemma delta_encode_loop_eq:
  "delta_encode_loop data i encoded =
     encoded @ map (\<lambda>k. delta_encode_step (data ! (k - 1)) (data ! k)) [i..<length data]"
proof (induction data i encoded rule: delta_encode_loop.induct)
  case (1 data i encoded)
  show ?case
  proof (cases "i < length data")
    case True
    with 1 show ?thesis
      by (subst delta_encode_loop.simps) (simp add: upt_conv_Cons)
  next
    case False
    then show ?thesis by (subst delta_encode_loop.simps) simp
  qed
qed

lemma small_deltas_nth:
  "small_deltas xs \<Longrightarrow> 0 < k \<Longrightarrow> k < length xs \<Longrightarrow> \<bar>uint (xs ! k) - uint (xs ! (k - 1))\<bar> \<le> 127"
proof (induction xs arbitrary: k rule: small_deltas.induct)
  case (1 a b xs)
  show ?case
  proof (cases "k = 1")
    case True
    with 1(2) show ?thesis by simp
  next
    case False
    with 1(3,4) have "0 < k - 1" "k - 1 < length (b # xs)" by simp_all
    with 1(1) [of "k - 1"] 1(2) have "\<bar>uint ((b # xs) ! (k - 1)) - uint ((b # xs) ! (k - 1 - 1))\<bar> \<le> 127"
      by simp
    with 1(3) False show ?thesis by (cases k) simp_all
  qed
qed simp_all

lemma delta_decode_loop_restores:
  assumes "small_deltas x" "length e = length x"
    and "\<forall>k. 0 < k \<and> k < length x \<longrightarrow> e ! k = delta_encode_step (x ! (k - 1)) (x ! k)"
  shows "0 < i \<Longrightarrow> i \<le> length x \<Longrightarrow> delta_decode_loop e i (take i x) = x"
proof (induction "length x - i" arbitrary: i)
  case 0
  with assms(2) have "\<not> i < length e" "take i x = x" by simp_all
  then show ?case by (subst delta_decode_loop.simps) simp
next
  case (Suc n)
  then have lt: "i < length x" by simp
  have "take i x \<noteq> []" "length (take i x) = i"
    using lt Suc.prems(1) by auto
  then have "last (take i x) = x ! (i - 1)"
    using lt by (simp add: last_conv_nth)
  moreover have "e ! i = delta_encode_step (x ! (i - 1)) (x ! i)"
    using assms(3) lt Suc.prems(1) by simp
  moreover have "delta_decode_step (x ! (i - 1)) (delta_encode_step (x ! (i - 1)) (x ! i)) = x ! i"
    using small_deltas_nth [OF assms(1) Suc.prems(1) lt] by (rule delta_step_inverse)
  ultimately have app: "take i x @ [delta_decode_step (last (take i x)) (e ! i)] = take (i + 1) x"
    using lt by (simp add: take_Suc_conv_app_nth)
  have "delta_decode_loop e (i + 1) (take (i + 1) x) = x"
    using Suc.hyps(2) lt by (intro Suc.hyps(1)) simp_all
  with app lt assms(2) show ?case by (subst delta_decode_loop.simps) simp
qed

text \<open>
  Claim C4. For a byte sequence in which every two adjacent bytes differ by at most 127
  in magnitude, decoding the delta encoding gives the sequence back. The transform does
  not check the condition: on \<open>[0, 200]\<close>, whose delta is 200, it returns normally and
  the round trip gives \<open>[0, 72]\<close>.
\<close>

theorem delta_varbyte_roundtrip:
  "(small_deltas x \<longrightarrow> delta_decode_varbyte (delta_encode_varbyte x) = x) \<and>
   delta_decode_varbyte (delta_encode_varbyte [0, 200]) = [0, 72]"
proof
  show "small_deltas x \<longrightarrow> delta_decode_varbyte (delta_encode_varbyte x) = x"
  proof (cases "x = []")
    case True
    then show ?thesis by (simp add: delta_decode_varbyte_def delta_encode_varbyte_def)
  next
    case False
    let ?e = "delta_encode_varbyte x"
    have e: "?e = x ! 0 # map (\<lambda>k. delta_encode_step (x ! (k - 1)) (x ! k)) [1..<length x]"
      using False by (simp add: delta_encode_varbyte_def delta_encode_loop_eq)
    have "0 < length x" using False by simp
    then have len: "length ?e = length x" unfolding e by simp
    have nth: "\<forall>k. 0 < k \<and> k < length x \<longrightarrow> ?e ! k = delta_encode_step (x ! (k - 1)) (x ! k)"
      by (auto simp: e nth_Cons')
    have "take 1 x = [x ! 0]" using False by (cases x) simp_all
    moreover have "?e ! 0 = x ! 0" unfolding e by simp
    ultimately have t1: "take 1 x = [?e ! 0]" by simp
    show ?thesis
    proof
      assume sd: "small_deltas x"
      have "delta_decode_loop ?e 1 (take 1 x) = x"
        using False by (intro delta_decode_loop_restores [OF sd len nth]) (cases x; simp)+
      moreover have "?e \<noteq> []" using len False by auto
      ultimately show "delta_decode_varbyte ?e = x"
        using t1 by (simp add: delta_decode_varbyte_def del: One_nat_def)
    qed
  qed
  show "delta_decode_varbyte (delta_encode_varbyte [0, 200]) = [0, 72]"
    by code_simp
qed

theorem delta_varbyte_roundtrip_witness:
  "small_deltas [10, 100, 3, 3, 130] \<and>
   delta_decode_varbyte (delta_encode_varbyte [10, 100, 3, 3, 130]) = [10, 100, 3, 3, 130]"
  using delta_varbyte_roundtrip [of "[10, 100, 3, 3, 130]"] by simp

section \<open>Half-precision conversion: round trip, saturation and flush\<close>

lemma bit_pow_int:
  "bit (0x8000 :: int) n \<longleftrightarrow> n = 15"
  "bit (0x80000000 :: int) n \<longleftrightarrow> n = 31"
proof -
  have "(0x8000 :: int) = 2 ^ 15" "(0x80000000 :: int) = 2 ^ 31" by simp_all
  then show "bit (0x8000 :: int) n \<longleftrightarrow> n = 15" "bit (0x80000000 :: int) n \<longleftrightarrow> n = 31"
    by (simp_all only: bit_exp_iff) auto
qed

lemma masks:
  "(0x3ff :: u32) = mask 10" "(0xff :: u32) = mask 8" "(0x7fffff :: u32) = mask 23"
  "(0x3ff :: u16) = mask 10" "(0x1f :: u16) = mask 5"
  by (simp_all add: mask_eq_exp_minus_1)

lemma half_fields:
  fixes bits E M :: u32
  assumes "take_bit 5 E = E" "take_bit 10 M = M"
  defines "v \<equiv> (ucast ((drop_bit 16 bits AND 0x8000) OR push_bit 10 E OR M) :: u16)"
  shows "push_bit 16 (ucast (v AND 0x8000) :: u32) = bits AND 0x80000000"
    and "drop_bit 10 v AND 0x1f = ucast E"
    and "(ucast (v AND 0x3ff) :: u32) = M"
proof -
  have E: "bit E n \<Longrightarrow> n < 5" for n
    using assms(1) by (metis bit_take_bit_iff)
  have M: "bit M n \<Longrightarrow> n < 10" for n
    using assms(2) by (metis bit_take_bit_iff)
  have sub: "16 \<le> n \<Longrightarrow> (n - 16 = 15) = (n = 31)" for n :: nat
    by auto
  show "push_bit 16 (ucast (v AND 0x8000) :: u32) = bits AND 0x80000000"
    unfolding v_def masks
    by (rule bit_eqI) (auto simp: bit_simps bit_pow_int sub dest: E M)
  show "drop_bit 10 v AND 0x1f = ucast E"
    unfolding v_def masks
    by (rule bit_eqI) (auto simp: bit_simps bit_pow_int dest: E M)
  show "(ucast (v AND 0x3ff) :: u32) = M"
    unfolding v_def masks
    by (rule bit_eqI) (auto simp: bit_simps bit_pow_int dest: E M)
qed

lemma float_fields:
  fixes bits :: u32
  shows "(bits AND 0x80000000) OR push_bit 23 (drop_bit 23 bits AND 0xff) OR
         push_bit 13 (drop_bit 13 bits AND 0x3ff) = bits AND 0xFFFFE000"
proof -
  have c: "(0xFFFFE000 :: u32) = NOT (mask 13)"
    by (simp add: mask_eq_exp_minus_1)
  show ?thesis
    unfolding masks c
  proof (rule bit_eqI)
    fix n :: nat
    show "bit (bits AND 0x80000000 OR push_bit 23 (drop_bit 23 bits AND mask 8) OR
               push_bit 13 (drop_bit 13 bits AND mask 10)) n = bit (bits AND NOT (mask 13)) n"
      by (cases "n < 23") (auto simp: bit_simps bit_pow_int)
  qed
qed

lemma mantissa_shift:
  fixes bits :: u32
  shows "drop_bit 13 (bits AND 0x7fffff) = drop_bit 13 bits AND 0x3ff"
  unfolding masks by (rule bit_eqI) (auto simp: bit_simps)

lemma exponent_word:
  assumes "1 \<le> e" "e \<le> 30"
  shows "take_bit 5 (word_of_int e :: u32) = word_of_int e"
    and "uint (ucast (word_of_int e :: u32) :: u16) = e"
    and "(word_of_int (push_bit 10 e) :: u32) = push_bit 10 (word_of_int e)"
proof -
  from assms have t: "take_bit 5 e = e" by (simp add: take_bit_int_eq_self)
  then show "take_bit 5 (word_of_int e :: u32) = word_of_int e"
    unfolding take_bit_of_int by simp
  from assms show "uint (ucast (word_of_int e :: u32) :: u16) = e"
    by (simp add: uint_word_of_int unsigned_ucast_eq take_bit_int_eq_self)
  show "(word_of_int (push_bit 10 e) :: u32) = push_bit 10 (word_of_int e)"
    by (simp add: push_bit_of_int)
qed

lemma mantissa_low10: "take_bit 10 (drop_bit 13 bits AND 0x3ff) = drop_bit 13 bits AND 0x3ff"
  for bits :: u32
  unfolding masks by (rule bit_eqI) (auto simp: bit_simps)

lemma exponent_field: "(word_of_int (push_bit 23 (uint F)) :: u32) = push_bit 23 F"
  for F :: u32
  by (simp flip: push_bit_of_int)

lemma word_of_int_push_bit:
  "(word_of_int (push_bit n k) :: u32) = push_bit n (word_of_int k)"
  by (simp add: push_bit_of_int)

lemma f32_to_f16_normal:
  assumes "1 \<le> rebiased_exponent bits" "rebiased_exponent bits \<le> 30"
  shows "f32_to_f16 bits =
           ucast ((drop_bit 16 bits AND 0x8000) OR
                  push_bit 10 (word_of_int (rebiased_exponent bits)) OR
                  (drop_bit 13 bits AND 0x3ff))"
    and "float32_to_float16 bits = f32_to_f16 bits"
proof -
  show 1: "f32_to_f16 bits =
           ucast ((drop_bit 16 bits AND 0x8000) OR
                  push_bit 10 (word_of_int (rebiased_exponent bits)) OR
                  (drop_bit 13 bits AND 0x3ff))"
    using assms unfolding f32_to_f16_def rebiased_exponent_def Let_def
    by (simp add: word_of_int_push_bit)
  have "float32_to_float16 bits =
           ucast ((drop_bit 16 bits AND 0x8000) OR
                  push_bit 10 (word_of_int (rebiased_exponent bits)) OR
                  (drop_bit 13 bits AND 0x3ff))"
    using assms unfolding float32_to_float16_def rebiased_exponent_def Let_def
    by (simp add: word_of_int_push_bit mantissa_shift)
  with 1 show "float32_to_float16 bits = f32_to_f16 bits" by simp
qed

lemma half_roundtrip_normal:
  assumes "1 \<le> rebiased_exponent bits" "rebiased_exponent bits \<le> 30"
  shows "f16_to_f32 (f32_to_f16 bits) = bits AND 0xFFFFE000"
    and "float16_to_float32 (float32_to_float16 bits) = bits AND 0xFFFFE000"
proof -
  define e where "e = rebiased_exponent bits"
  define E where "E = (word_of_int e :: u32)"
  define M where "M = drop_bit 13 bits AND (0x3ff :: u32)"
  define v where "v = f32_to_f16 bits"
  have e: "1 \<le> e" "e \<le> 30" using assms by (simp_all add: e_def)
  note ew = exponent_word [OF e, folded E_def]
  have v: "v = ucast ((drop_bit 16 bits AND 0x8000) OR push_bit 10 E OR M)"
    unfolding v_def E_def M_def e_def by (rule f32_to_f16_normal [OF assms])
  have M: "take_bit 10 M = M" unfolding M_def by (rule mantissa_low10)
  note hf = half_fields [OF ew(1) M, of bits, folded v]
  have ne: "(e = 0) = False" "(e = 31) = False" using e by simp_all
  have "e - 15 + 127 = uint (drop_bit 23 bits AND 0xff)"
    by (simp add: e_def rebiased_exponent_def)
  then have fw: "(word_of_int (push_bit 23 (e - 15 + 127)) :: u32) =
      push_bit 23 (drop_bit 23 bits AND 0xff)"
    by (simp only: exponent_field)
  have r: "f16_to_f32 v = bits AND 0xFFFFE000"
    unfolding f16_to_f32_def Let_def
    by (simp only: hf ew(2) ne if_False fw M_def float_fields)
  have r': "float16_to_float32 v = bits AND 0xFFFFE000"
    unfolding float16_to_float32_def Let_def
    by (simp only: hf ew(2) ne if_False fw M_def float_fields)
  show "f16_to_f32 (f32_to_f16 bits) = bits AND 0xFFFFE000"
    using r by (simp add: v_def)
  show "float16_to_float32 (float32_to_float16 bits) = bits AND 0xFFFFE000"
    using r' by (simp add: v_def f32_to_f16_normal(2) [OF assms])
qed

lemma half_special:
  fixes bits E :: u32
  assumes "take_bit 5 E = E"
  defines "v \<equiv> (ucast ((drop_bit 16 bits AND 0x8000) OR push_bit 10 E) :: u16)"
  shows "push_bit 16 (ucast (v AND 0x8000) :: u32) = bits AND 0x80000000"
    and "drop_bit 10 v AND 0x1f = ucast E"
    and "(ucast (v AND 0x3ff) :: u32) = 0"
  using half_fields [OF assms(1), of 0 bits] by (simp_all add: v_def)

lemma half_saturates:
  assumes "31 \<le> rebiased_exponent bits"
  shows "f32_to_f16 bits = f16_sign bits OR 0x7c00"
    and "float32_to_float16 bits = f16_sign bits OR 0x7c00"
    and "f16_to_f32 (f32_to_f16 bits) = f32_sign bits OR 0x7f800000"
    and "float16_to_float32 (float32_to_float16 bits) = f32_sign bits OR 0x7f800000"
proof -
  define v where "v = (ucast ((drop_bit 16 bits AND 0x8000) OR push_bit 10 (0x1f :: u32)) :: u16)"
  have enc: "f32_to_f16 bits = v"
    using assms unfolding f32_to_f16_def rebiased_exponent_def Let_def v_def by simp
  have enc': "float32_to_float16 bits = v"
    using assms unfolding float32_to_float16_def rebiased_exponent_def Let_def v_def by simp
  have "v = f16_sign bits OR 0x7c00"
    unfolding v_def f16_sign_def by (simp add: unsigned_or_eq)
  with enc enc' show "f32_to_f16 bits = f16_sign bits OR 0x7c00"
    "float32_to_float16 bits = f16_sign bits OR 0x7c00" by simp_all
  have "take_bit 5 (0x1f :: u32) = 0x1f" by simp
  note hs = half_special [OF this, of bits, folded v_def]
  have ex: "uint (drop_bit 10 v AND 0x1f) = 31" by (simp only: hs(2)) simp
  have "f16_to_f32 v = f32_sign bits OR 0x7f800000"
    unfolding f16_to_f32_def Let_def f32_sign_def by (simp only: hs(1) ex) simp
  with enc show "f16_to_f32 (f32_to_f16 bits) = f32_sign bits OR 0x7f800000" by simp
  have "float16_to_float32 v = f32_sign bits OR 0x7f800000"
    unfolding float16_to_float32_def Let_def f32_sign_def by (simp only: hs ex) simp
  with enc' show "float16_to_float32 (float32_to_float16 bits) = f32_sign bits OR 0x7f800000"
    by simp
qed

lemma half_flushes:
  assumes "rebiased_exponent bits \<le> 0"
  shows "f32_to_f16 bits = f16_sign bits"
    and "float32_to_float16 bits = f16_sign bits"
    and "f16_to_f32 (f32_to_f16 bits) = f32_sign bits"
    and "float16_to_float32 (float32_to_float16 bits) = f32_sign bits"
proof -
  define v where "v = (ucast ((drop_bit 16 bits AND 0x8000) OR push_bit 10 (0 :: u32)) :: u16)"
  have v: "v = f16_sign bits" by (simp add: v_def f16_sign_def)
  show enc: "f32_to_f16 bits = f16_sign bits"
    using assms unfolding f32_to_f16_def rebiased_exponent_def Let_def f16_sign_def by simp
  show enc': "float32_to_float16 bits = f16_sign bits"
    using assms unfolding float32_to_float16_def rebiased_exponent_def Let_def f16_sign_def
    by simp
  have "take_bit 5 (0 :: u32) = 0" by simp
  note hs = half_special [OF this, of bits, folded v_def]
  have ex: "uint (drop_bit 10 v AND 0x1f) = 0" by (simp only: hs(2)) simp
  have "f16_to_f32 v = f32_sign bits"
    unfolding f16_to_f32_def Let_def f32_sign_def by (simp only: hs(1) ex) simp
  with enc v show "f16_to_f32 (f32_to_f16 bits) = f32_sign bits" by simp
  have "float16_to_float32 v = f32_sign bits"
    unfolding float16_to_float32_def Let_def f32_sign_def by (simp only: hs ex) simp
  with enc' v show "float16_to_float32 (float32_to_float16 bits) = f32_sign bits" by simp
qed

text \<open>
  Claim C8. For both pairs of conversion functions, on every bit pattern \<open>x\<close> of a
  float: when the rebiased exponent is between 1 and 30, decoding the encoding gives
  \<open>x\<close> with its low 13 mantissa bits cleared; when it is 31 or more (magnitudes
  beyond the half-precision exponent range), the encoding is the signed infinity of
  half precision, which decodes to the signed infinity of single precision; when it is
  0 or less, the encoding is the signed zero, which decodes to the signed zero.
\<close>

theorem float16_roundtrip:
  "(1 \<le> rebiased_exponent x \<and> rebiased_exponent x \<le> 30 \<longrightarrow>
      f16_to_f32 (f32_to_f16 x) = x AND 0xFFFFE000 \<and>
      float16_to_float32 (float32_to_float16 x) = x AND 0xFFFFE000) \<and>
   (31 \<le> rebiased_exponent x \<longrightarrow>
      f32_to_f16 x = f16_sign x OR 0x7c00 \<and>
      float32_to_float16 x = f16_sign x OR 0x7c00 \<and>
      f16_to_f32 (f32_to_f16 x) = f32_sign x OR 0x7f800000 \<and>
      float16_to_float32 (float32_to_float16 x) = f32_sign x OR 0x7f800000) \<and>
   (rebiased_exponent x \<le> 0 \<longrightarrow>
      f32_to_f16 x = f16_sign x \<and>
      float32_to_float16 x = f16_sign x \<and>
      f16_to_f32 (f32_to_f16 x) = f32_sign x \<and>
      float16_to_float32 (float32_to_float16 x) = f32_sign x)"
  using half_roundtrip_normal [of x] half_saturates [of x] half_flushes [of x]
  by blast

theorem float16_roundtrip_witness:
  "(1 \<le> rebiased_exponent 0x3FC01234 \<and> rebiased_exponent 0x3FC01234 \<le> 30 \<and>
      f16_to_f32 (f32_to_f16 0x3FC01234) = 0x3FC00000 \<and>
      float16_to_float32 (float32_to_float16 0x3FC01234) = 0x3FC00000) \<and>
   (31 \<le> rebiased_exponent 0xC7FFFFFF \<and>
      f32_to_f16 0xC7FFFFFF = 0xFC00 \<and>
      float16_to_float32 (float32_to_float16 0xC7FFFFFF) = 0xFF800000) \<and>
   (rebiased_exponent 0x80000001 \<le> 0 \<and>
      f32_to_f16 0x80000001 = 0x8000 \<and>
      f16_to_f32 (f32_to_f16 0x80000001) = 0x80000000)"
  using float16_roundtrip [of "0x3FC01234"] float16_roundtrip [of "0xC7FFFFFF"]
    float16_roundtrip [of "0x80000001"]
  by (simp add: rebiased_exponent_def f16_sign_def f32_sign_def f16_to_f32_def
      float16_to_float32_def)

section \<open>Containers: what the decoders check and what the encoders write\<close>

subsection \<open>Reading from the stream\<close>

lemma stream_read_good:
  "stream_read n \<lparr>unread = xs, failbit = False\<rparr> =
     (if n \<le> length xs then (take n xs, \<lparr>unread = drop n xs, failbit = False\<rparr>)
      else (xs, \<lparr>unread = [], failbit = True\<rparr>))"
  by (simp add: stream_read_def)

lemma stream_read_failed:
  "stream_read n \<lparr>unread = xs, failbit = True\<rparr> = ([], \<lparr>unread = xs, failbit = True\<rparr>)"
  by (simp add: stream_read_def)

subsection \<open>The lossy decoder\<close>




lemma decode_tensor_bytes_fields:
  "decode_tensor_bytes fp hdr c =
   decode_tensor_bytes fp
     \<lparr>original_size = 0, json_header_size = 0, num_tensors = 0,
      compression_method = compression_method hdr,
      min_value = min_value hdr, max_value = max_value hdr\<rparr> c"
  by (simp add: decode_tensor_bytes_def)

lemma decompress_cong:
  assumes "length f = length f'" "drop 32 f = drop 32 f'"
    and "json_header_size (load_Header (take 32 f)) = json_header_size (load_Header (take 32 f'))"
    and "compression_method (load_Header (take 32 f)) = compression_method (load_Header (take 32 f'))"
    and "min_value (load_Header (take 32 f)) = min_value (load_Header (take 32 f'))"
    and "max_value (load_Header (take 32 f)) = max_value (load_Header (take 32 f'))"
  shows "decompress env fp f = decompress env fp f'"
proof (cases "32 \<le> length f")
  case False
  with assms(1) show ?thesis
    by (simp add: decompress_def stream_read_good)
next
  case True
  have d: "decode_tensor_bytes fp (load_Header (take 32 f)) c =
           decode_tensor_bytes fp (load_Header (take 32 f')) c" for c
    by (subst decode_tensor_bytes_fields, subst (2) decode_tensor_bytes_fields)
       (simp only: assms)
  show ?thesis
    using True assms(1)
    by (simp add: decompress_def stream_read_good stream_read_failed Let_def d
        assms(2,3) cong: outcome.case_cong if_cong)
qed

text \<open>
  Claim C10. A lossy container is \<^verbatim>\<open>original_size\<close> (8 bytes), \<^verbatim>\<open>json_header_size\<close>
  (8 bytes), \<^verbatim>\<open>num_tensors\<close> (4 bytes) and the rest. Two containers that differ only
  in \<^verbatim>\<open>original_size\<close> and \<^verbatim>\<open>num_tensors\<close> have the same outcome of \<open>decompress\<close>, so
  the same output file.
\<close>

theorem decompress_ignores_size_fields:
  assumes "length a = 8" "length a' = 8" "length j = 8" "length n = 4" "length n' = 4"
  shows "decompress env fp (a @ j @ n @ t) = decompress env fp (a' @ j @ n' @ t)"
  using assms
  by (intro decompress_cong) (simp_all add: load_Header_def load_u64_def load_u32_def)

theorem decompress_ignores_size_fields_witness:
  "length [1, 0, 0, 0, 0, 0, 0, 0 :: u8] = 8 \<and> length [9, 9, 0, 0, 0, 0, 0, 0 :: u8] = 8 \<and>
   length [0, 0, 0, 0, 0, 0, 0, 0 :: u8] = 8 \<and> length [7, 0, 0, 0 :: u8] = 4 \<and>
   length [3, 3, 3, 3 :: u8] = 4 \<and>
   decompress sample_environment sample_float_ops
     ([1, 0, 0, 0, 0, 0, 0, 0] @ [0, 0, 0, 0, 0, 0, 0, 0] @ [7, 0, 0, 0] @ replicate 28 0) =
   decompress sample_environment sample_float_ops
     ([9, 9, 0, 0, 0, 0, 0, 0] @ [0, 0, 0, 0, 0, 0, 0, 0] @ [3, 3, 3, 3] @ replicate 28 0)"
  using decompress_ignores_size_fields [of "[1, 0, 0, 0, 0, 0, 0, 0]" "[9, 9, 0, 0, 0, 0, 0, 0]"
      "[0, 0, 0, 0, 0, 0, 0, 0]" "[7, 0, 0, 0]" "[3, 3, 3, 3]" sample_environment
      sample_float_ops "replicate 28 0"]
  by simp

subsection \<open>The lossless decoder\<close>


subsection \<open>Truncated containers\<close>







subsection \<open>Memory images\<close>

lemma length_le_bytes: "length (le_bytes n v) = n"
  by (induction n arbitrary: v) simp_all

lemma le_nat_le_bytes: "le_nat (le_bytes n v) = v mod 256 ^ n"
proof (induction n arbitrary: v)
  case 0
  then show ?case by simp
next
  case (Suc n)
  have "unat (of_nat (v mod 256) :: u8) = v mod 256"
    by (simp add: unat_of_nat)
  then have "le_nat (le_bytes (Suc n) v) = v mod 256 + 256 * (v div 256 mod 256 ^ n)"
    by (simp add: Suc)
  also have "\<dots> = v mod 256 ^ Suc n"
    by (simp add: mod_mult2_eq)
  finally show ?case .
qed

lemma load_store_u64: "load_u64 (store_u64 w @ rest) = w"
proof -
  have "unat w < 256 ^ 8" using unsigned_less [of w, where 'a = nat] by simp
  then show ?thesis
    by (simp add: load_u64_def store_u64_def length_le_bytes le_nat_le_bytes)
qed

lemma load_store_u32: "load_u32 (store_u32 w @ rest) = w"
proof -
  have "unat w < 256 ^ 4" using unsigned_less [of w, where 'a = nat] by simp
  then show ?thesis
    by (simp add: load_u32_def store_u32_def length_le_bytes le_nat_le_bytes)
qed

lemma length_store: "length (store_u64 w) = 8" "length (store_u32 v) = 4"
  by (simp_all add: store_u64_def store_u32_def length_le_bytes)

lemma load_store_LHeader: "load_LHeader (store_LHeader hdr @ rest) = hdr"
  by (simp add: load_LHeader_def store_LHeader_def length_store load_store_u64 load_store_u32)

lemma load_store_Header: "load_Header (store_Header hdr @ rest) = hdr"
  by (simp add: load_Header_def store_Header_def length_store load_store_u64 load_store_u32)

lemma length_store_Header: "length (store_LHeader lh) = 32" "length (store_Header hdr) = 32"
  by (simp_all add: store_LHeader_def store_Header_def length_store)

subsection \<open>The metadata the encoders write\<close>

lemma lossless_metadata_written:
  assumes "compress_lossless bk data = Returned_true out"
  shows "l_json_header_size (load_LHeader out) = 8 + load_u64 data"
    and "lossless_metadata out = take (unat (8 + load_u64 data)) data"
proof -
  define split where "split = unat (8 + load_u64 data)"
  have le: "split \<le> length data"
    using assms by (auto simp: compress_lossless_def Let_def split_def split: if_splits)
  obtain hdr rest where out: "out = store_LHeader hdr @ take split data @ rest"
    and hdr: "l_json_header_size hdr = of_nat (length (take split data))"
    using assms
    by (auto simp: compress_lossless_def Let_def split_def split: if_splits)
  have len: "length (take split data) = split" using le by simp
  show "l_json_header_size (load_LHeader out) = 8 + load_u64 data"
    by (simp only: out load_store_LHeader hdr len) (simp add: split_def)
  then have "unat (l_json_header_size (load_LHeader out)) = split"
    by (simp add: split_def)
  then have "lossless_metadata out = take split data"
    unfolding lossless_metadata_def using le
    by (simp add: out length_store_Header)
  then show "lossless_metadata out = take (unat (8 + load_u64 data)) data"
    by (simp add: split_def)
qed

lemma lossy_metadata_written:
  assumes "compress fp data use_8bit = Returned_true out"
  shows "json_header_size (load_Header out) = load_u64 data"
    and "lossy_metadata out = take (unat (8 + load_u64 data)) data"
proof -
  define split where "split = unat (8 + load_u64 data)"
  have le: "split \<le> length data"
    using assms by (auto simp: compress_def Let_def split_def split: if_splits prod.splits)
  obtain hdr rest where out: "out = store_Header hdr @ take split data @ rest"
    and hdr: "json_header_size hdr = load_u64 data"
    using assms
    by (auto simp: compress_def Let_def split_def split: if_splits prod.splits)
  have len: "length (take split data) = split" using le by simp
  show "json_header_size (load_Header out) = load_u64 data"
    by (simp only: out load_store_Header hdr)
  then have "unat (8 + json_header_size (load_Header out)) = split"
    by (simp add: split_def)
  then have "lossy_metadata out = take split data"
    unfolding lossy_metadata_def using le
    by (simp add: out length_store_Header)
  then show "lossy_metadata out = take (unat (8 + load_u64 data)) data"
    by (simp add: split_def)
qed

text \<open>
  Claim C9, as stated, fails: for an input with length prefix 2, metadata \<open>AA BB\<close> and
  one float, the metadata section of the lossless container is the first ten bytes of
  the input, the 8-byte length prefix included.
\<close>

theorem lossless_metadata_has_prefix:
  "compress_lossless sample_backend [2, 0, 0, 0, 0, 0, 0, 0, 0xAA, 0xBB, 1, 0, 0, 0] \<noteq>
     Returned_false \<and>
   lossless_metadata (output_of (compress_lossless sample_backend
       [2, 0, 0, 0, 0, 0, 0, 0, 0xAA, 0xBB, 1, 0, 0, 0])) =
     [2, 0, 0, 0, 0, 0, 0, 0, 0xAA, 0xBB]"
  by code_simp

lemma prefix_of_metadata:
  fixes L :: u64
  assumes "m = take (unat (8 + L)) data" "unat (8 + L) \<le> length data" "unat L + 8 < 2 ^ 64"
  shows "length m = 8 + unat L" "take 8 m = take 8 data"
proof -
  have "unat (8 + L) = 8 + unat L"
    using assms(3) by (simp add: unat_word_ariths)
  with assms(1,2) show "length m = 8 + unat L" "take 8 m = take 8 data"
    by simp_all
qed

lemma compress_lossless_split:
  "compress_lossless bk data = Returned_true out \<Longrightarrow> unat (8 + load_u64 data) \<le> length data"
  by (auto simp: compress_lossless_def Let_def split: if_splits)

lemma compress_split:
  "compress fp data use_8bit = Returned_true out \<Longrightarrow> unat (8 + load_u64 data) \<le> length data"
  by (auto simp: compress_def Let_def split: if_splits prod.splits)

text \<open>
  Claim C9, amended. With \<open>L\<close> the length prefix of the input, each encoder, when it
  returns \<^verbatim>\<open>true\<close>, has written the first \<open>(8 + L) mod 2 ^ 64\<close> bytes of the input
  after the fixed header (the sum is computed in 64 bits). Whenever
  \<open>8 + L\<close> does not wrap around (\<open>L + 8 < 2 ^ 64\<close>), these are \<open>8 + L\<close> bytes and they
  begin with the 8-byte length prefix of the input: the lossless format replicates the
  prefix as the lossy format does. The formats differ in the header field: the lossless
  container stores \<open>(8 + L) mod 2 ^ 64\<close> in \<^verbatim>\<open>json_header_size\<close>, so its metadata section is exactly
  \<^verbatim>\<open>json_header_size\<close> bytes; the lossy container stores \<open>L\<close>, so its metadata section is
  \<^verbatim>\<open>8 + json_header_size\<close> bytes.
\<close>

theorem container_metadata_includes_prefix:
  "(compress_lossless bk data = Returned_true out \<longrightarrow>
      l_json_header_size (load_LHeader out) = 8 + load_u64 data \<and>
      lossless_metadata out = take (unat (8 + load_u64 data)) data \<and>
      (unat (load_u64 data) + 8 < 2 ^ 64 \<longrightarrow>
         length (lossless_metadata out) = 8 + unat (load_u64 data) \<and>
         take 8 (lossless_metadata out) = take 8 data)) \<and>
   (compress fp data use_8bit = Returned_true out' \<longrightarrow>
      json_header_size (load_Header out') = load_u64 data \<and>
      lossy_metadata out' = take (unat (8 + load_u64 data)) data \<and>
      (unat (load_u64 data) + 8 < 2 ^ 64 \<longrightarrow>
         length (lossy_metadata out') = 8 + unat (load_u64 data) \<and>
         take 8 (lossy_metadata out') = take 8 data))"
  using lossless_metadata_written [of bk data out] lossy_metadata_written [of fp data use_8bit out']
    prefix_of_metadata [of "lossless_metadata out" "load_u64 data" data]
    prefix_of_metadata [of "lossy_metadata out'" "load_u64 data" data]
    compress_lossless_split [of bk data out] compress_split [of fp data use_8bit out']
  by blast

theorem container_metadata_includes_prefix_witness:
  "(compress_lossless sample_backend [2, 0, 0, 0, 0, 0, 0, 0, 0xAA, 0xBB, 1, 0, 0, 0] =
      Returned_true (output_of (compress_lossless sample_backend
        [2, 0, 0, 0, 0, 0, 0, 0, 0xAA, 0xBB, 1, 0, 0, 0])) \<and>
    unat (load_u64 [2, 0, 0, 0, 0, 0, 0, 0, 0xAA, 0xBB, 1, 0, 0, 0]) + 8 < 2 ^ 64 \<and>
    lossless_metadata (output_of (compress_lossless sample_backend
        [2, 0, 0, 0, 0, 0, 0, 0, 0xAA, 0xBB, 1, 0, 0, 0])) =
      take (unat (8 + load_u64 [2, 0, 0, 0, 0, 0, 0, 0, 0xAA, 0xBB, 1, 0, 0, 0]))
        [2, 0, 0, 0, 0, 0, 0, 0, 0xAA, 0xBB, 1, 0, 0, 0] \<and>
    take 8 (lossless_metadata (output_of (compress_lossless sample_backend
        [2, 0, 0, 0, 0, 0, 0, 0, 0xAA, 0xBB, 1, 0, 0, 0]))) =
      take 8 [2, 0, 0, 0, 0, 0, 0, 0, 0xAA, 0xBB, 1, 0, 0, 0]) \<and>
   (compress sample_float_ops [2, 0, 0, 0, 0, 0, 0, 0, 0xAA, 0xBB, 1, 0, 0, 0] False =
      Returned_true (output_of (compress sample_float_ops
        [2, 0, 0, 0, 0, 0, 0, 0, 0xAA, 0xBB, 1, 0, 0, 0] False)) \<and>
    lossy_metadata (output_of (compress sample_float_ops
        [2, 0, 0, 0, 0, 0, 0, 0, 0xAA, 0xBB, 1, 0, 0, 0] False)) =
      take (unat (8 + load_u64 [2, 0, 0, 0, 0, 0, 0, 0, 0xAA, 0xBB, 1, 0, 0, 0]))
        [2, 0, 0, 0, 0, 0, 0, 0, 0xAA, 0xBB, 1, 0, 0, 0] \<and>
    take 8 (lossy_metadata (output_of (compress sample_float_ops
        [2, 0, 0, 0, 0, 0, 0, 0, 0xAA, 0xBB, 1, 0, 0, 0] False))) =
      take 8 [2, 0, 0, 0, 0, 0, 0, 0, 0xAA, 0xBB, 1, 0, 0, 0])"
proof -
  have lossless: "compress_lossless sample_backend [2, 0, 0, 0, 0, 0, 0, 0, 0xAA, 0xBB, 1, 0, 0, 0] =
      Returned_true (output_of (compress_lossless sample_backend
        [2, 0, 0, 0, 0, 0, 0, 0, 0xAA, 0xBB, 1, 0, 0, 0]))"
    by code_simp
  have lossy: "compress sample_float_ops [2, 0, 0, 0, 0, 0, 0, 0, 0xAA, 0xBB, 1, 0, 0, 0] False =
      Returned_true (output_of (compress sample_float_ops
        [2, 0, 0, 0, 0, 0, 0, 0, 0xAA, 0xBB, 1, 0, 0, 0] False))"
    by code_simp
  have "unat (load_u64 [2, 0, 0, 0, 0, 0, 0, 0, 0xAA, 0xBB, 1, 0, 0, 0]) = 2"
    by code_simp
  then have nowrap: "unat (load_u64 [2, 0, 0, 0, 0, 0, 0, 0, 0xAA, 0xBB, 1, 0, 0, 0]) + 8 < 2 ^ 64"
    by simp
  from lossless lossy nowrap
    container_metadata_includes_prefix [of sample_backend
      "[2, 0, 0, 0, 0, 0, 0, 0, 0xAA, 0xBB, 1, 0, 0, 0]"
      "output_of (compress_lossless sample_backend [2, 0, 0, 0, 0, 0, 0, 0, 0xAA, 0xBB, 1, 0, 0, 0])"
      sample_float_ops False
      "output_of (compress sample_float_ops [2, 0, 0, 0, 0, 0, 0, 0, 0xAA, 0xBB, 1, 0, 0, 0] False)"]
  show ?thesis by blast
qed

subsection \<open>The input checks of the encoders\<close>

text \<open>
  Claim C7 at its failing inputs. An 8-byte file whose length prefix is 1 is shorter
  than \<open>8 + L\<close>: the lossless encoder returns \<^verbatim>\<open>false\<close>, the lossy encoder has no such
  check and forms an iterator past the end of the file's bytes. An 11-byte file whose
  length prefix is \<open>2 ^ 64 - 1\<close> passes the lossless encoder's check, because
  \<^verbatim>\<open>8 + header_size\<close> wraps around to 7.
\<close>

theorem compress_metadata_length_unchecked:
  "compress fp [1, 0, 0, 0, 0, 0, 0, 0] use_8bit = Undefined_behaviour \<and>
   compress_lossless bk [1, 0, 0, 0, 0, 0, 0, 0] = Returned_false \<and>
   compress_lossless sample_backend
     [0xFF, 0xFF, 0xFF, 0xFF, 0xFF, 0xFF, 0xFF, 0xFF, 9, 9, 9] \<noteq> Returned_false"
  by (simp add: compress_def compress_lossless_def load_u64_def Let_def sample_backend_def
      zstd_compress_mt_def)

text \<open>
  Claim C6 at its failing input. A file with length prefix 0 and a payload of five
  bytes: neither encoder checks that the payload is a multiple of four bytes long, and
  both copy the five bytes into a vector of one 4-byte element.
\<close>

theorem compress_payload_length_unchecked:
  "compress fp [0, 0, 0, 0, 0, 0, 0, 0, 1, 2, 3, 4, 5] use_8bit = Undefined_behaviour \<and>
   compress_lossless bk [0, 0, 0, 0, 0, 0, 0, 0, 1, 2, 3, 4, 5] = Undefined_behaviour"
  by (simp add: compress_def compress_lossless_def load_u64_def)

section \<open>Run-length codec: the round trip\<close>

lemma literal_loop_bounds:
  assumes "i \<le> length data" "l0 \<le> 255"
  shows "fst (literal_loop data i l0) \<le> length data \<and>
         snd (literal_loop data i l0) \<le> 255 \<and>
         fst (literal_loop data i l0) + l0 = i + snd (literal_loop data i l0)"
  using assms
proof (induction data i l0 rule: literal_loop.induct)
  case (1 data i lit_length)
  show ?case
  proof (cases "i < length data \<and> lit_length < 255 \<and> \<not> same_run data i 4 1 \<ge> 4")
    case True
    then have "literal_loop data i lit_length = literal_loop data (i + 1) (lit_length + 1)"
      by (subst literal_loop.simps) (simp add: Let_def)
    moreover have "fst (literal_loop data (i + 1) (lit_length + 1)) \<le> length data \<and>
         snd (literal_loop data (i + 1) (lit_length + 1)) \<le> 255 \<and>
         fst (literal_loop data (i + 1) (lit_length + 1)) + (lit_length + 1) =
           (i + 1) + snd (literal_loop data (i + 1) (lit_length + 1))"
    proof -
      have c: "i < length data \<and> lit_length < 255" using True by simp
      have n: "\<not> 4 \<le> same_run data i 4 1" using True by simp
      show ?thesis using True by (intro 1(1) [OF c refl n]) simp_all
    qed
    ultimately show ?thesis by simp
  next
    case False
    then have "literal_loop data i lit_length = (i, lit_length)"
      by (subst literal_loop.simps) (auto simp: Let_def)
    with 1(2,3) show ?thesis by simp
  qed
qed

lemma compress_rle_loop_segments:
  "compress_rle_loop data i compressed =
     compressed @ concat (map segment_bytes (rle_segments_loop data i))"
proof (induction data i compressed rule: compress_rle_loop.induct)
  case (1 data i compressed)
  show ?case
  proof (cases "i < length data")
    case False
    then show ?thesis
      by (subst compress_rle_loop.simps, subst rle_segments_loop.simps) simp
  next
    case True
    define r where "r = same_run data i 255 1"
    show ?thesis
    proof (cases "r \<ge> 4")
      case run: True
      have "compress_rle_loop data (i + r) (compressed @ [0xFF, of_nat r, data ! i]) =
          (compressed @ [0xFF, of_nat r, data ! i]) @
          concat (map segment_bytes (rle_segments_loop data (i + r)))"
        using 1(1) [OF True r_def run] .
      with True run show ?thesis
        by (subst compress_rle_loop.simps, subst rle_segments_loop.simps,
            unfold Let_def r_def [symmetric]) simp
    next
      case lit: False
      define l where "l = snd (literal_loop data i 0)"
      have "compress_rle_loop data (fst (literal_loop data i 0))
              (compressed @ [of_nat l] @ take l (drop i data)) =
          (compressed @ [of_nat l] @ take l (drop i data)) @
          concat (map segment_bytes (rle_segments_loop data (fst (literal_loop data i 0))))"
        using 1(2) [OF True r_def lit refl l_def] .
      moreover have "length (take l (drop i data)) = l"
      proof -
        have "i + l \<le> length data"
          using literal_loop_bounds [of i data 0] True by (simp add: l_def)
        then show ?thesis by simp
      qed
      ultimately show ?thesis
        using True lit
        by (subst compress_rle_loop.simps, subst rle_segments_loop.simps,
            unfold Let_def r_def [symmetric] l_def [symmetric]) simp
    qed
  qed
qed

lemma take_drop_split: "take n (drop i xs) @ drop (i + n) xs = drop i xs"
  using append_take_drop_id [of n "drop i xs"] by (simp add: add.commute)

lemma same_run_invariant:
  assumes "i + n \<le> length data" "n \<le> limit" "\<forall>k<n. data ! (i + k) = data ! i"
  shows "i + same_run data i limit n \<le> length data \<and> same_run data i limit n \<le> limit \<and>
         (\<forall>k < same_run data i limit n. data ! (i + k) = data ! i)"
  using assms
proof (induction data i limit n rule: same_run.induct)
  case (1 data i limit n)
  show ?case
  proof (cases "i + n < length data \<and> data ! (i + n) = data ! i \<and> n < limit")
    case True
    then have eq: "same_run data i limit n = same_run data i limit (n + 1)"
      by (subst same_run.simps) simp
    have "\<forall>k<n + 1. data ! (i + k) = data ! i"
      using True 1(4) by (auto simp: less_Suc_eq)
    with 1(1) [OF True] True show ?thesis
      unfolding eq by simp
  next
    case False
    then have "same_run data i limit n = n"
      by (subst same_run.simps) auto
    with 1(2,3,4) show ?thesis by simp
  qed
qed

lemma run_is_replicate:
  assumes "i < length data"
  defines "r \<equiv> same_run data i 255 1"
  shows "take r (drop i data) = replicate r (data ! i)" and "i + r \<le> length data"
    and "r \<le> 255"
proof -
  have inv: "i + r \<le> length data \<and> r \<le> 255 \<and> (\<forall>k<r. data ! (i + k) = data ! i)"
    unfolding r_def using assms(1) by (intro same_run_invariant) simp_all
  then show "i + r \<le> length data" "r \<le> 255" by simp_all
  from inv have "r \<le> length data - i" by arith
  with inv show "take r (drop i data) = replicate r (data ! i)"
    by (intro nth_equalityI) simp_all
qed

lemma rle_segments_loop_data:
  "i \<le> length data \<Longrightarrow> concat (map segment_data (rle_segments_loop data i)) = drop i data"
proof (induction data i rule: rle_segments_loop.induct)
  case (1 data i)
  show ?case
  proof (cases "i < length data")
    case False
    with 1(3) show ?thesis by (subst rle_segments_loop.simps) simp
  next
    case True
    define r where "r = same_run data i 255 1"
    note run = run_is_replicate [OF True, folded r_def]
    show ?thesis
    proof (cases "r \<ge> 4")
      case ge: True
      have "concat (map segment_data (rle_segments_loop data (i + r))) = drop (i + r) data"
        using 1(1) [OF True r_def ge] run(2) by simp
      then have "concat (map segment_data (rle_segments_loop data i)) =
          replicate r (data ! i) @ drop (i + r) data"
        using True ge
        by (subst rle_segments_loop.simps, unfold Let_def r_def [symmetric]) simp
      also have "\<dots> = take r (drop i data) @ drop (i + r) data"
        by (simp only: run(1))
      finally show ?thesis by (simp only: take_drop_split)
    next
      case lit: False
      define l where "l = snd (literal_loop data i 0)"
      define i' where "i' = fst (literal_loop data i 0)"
      have b: "i' \<le> length data" "i' = i + l"
        using literal_loop_bounds [of i data 0] True by (simp_all add: l_def i'_def)
      have "concat (map segment_data (rle_segments_loop data i')) = drop i' data"
        unfolding i'_def using 1(2) [OF True r_def lit l_def] b(1) by (simp add: i'_def)
      then have "concat (map segment_data (rle_segments_loop data i)) =
          take l (drop i data) @ drop i' data"
        using True lit
        by (subst rle_segments_loop.simps,
            unfold Let_def r_def [symmetric] l_def [symmetric] i'_def [symmetric]) simp
      then show ?thesis by (simp only: b(2) take_drop_split)
    qed
  qed
qed

text \<open>
  The segments the decoder reads back as they were written: a run of at most 255
  bytes, and a literal whose length byte is not the run marker.
\<close>

fun decodable :: "segment \<Rightarrow> bool" where
  "decodable (Run n v) = (n \<le> 255)"
| "decodable (Literal l) = (length l < 255)"

lemma rle_segments_loop_decodable:
  "s \<in> set (rle_segments_loop data i) \<Longrightarrow> \<not> is_literal_255 s \<Longrightarrow> decodable s"
proof (induction data i rule: rle_segments_loop.induct)
  case (1 data i)
  show ?case
  proof (cases "i < length data")
    case False
    with 1(3) show ?thesis by (subst (asm) rle_segments_loop.simps) simp
  next
    case True
    define r where "r = same_run data i 255 1"
    note run = run_is_replicate [OF True, folded r_def]
    show ?thesis
    proof (cases "r \<ge> 4")
      case ge: True
      have "rle_segments_loop data i = Run r (data ! i) # rle_segments_loop data (i + r)"
        using True ge
        by (subst rle_segments_loop.simps, unfold Let_def r_def [symmetric]) simp
      with 1(3) have "s = Run r (data ! i) \<or> s \<in> set (rle_segments_loop data (i + r))"
        by simp
      then show ?thesis
        using 1(1) [OF True r_def ge] 1(4) run(3) by auto
    next
      case lit: False
      define l where "l = snd (literal_loop data i 0)"
      define i' where "i' = fst (literal_loop data i 0)"
      have b: "i + l \<le> length data" "l \<le> 255"
        using literal_loop_bounds [of i data 0] True by (simp_all add: l_def)
      have "rle_segments_loop data i = Literal (take l (drop i data)) # rle_segments_loop data i'"
        using True lit
        by (subst rle_segments_loop.simps,
            unfold Let_def r_def [symmetric] l_def [symmetric] i'_def [symmetric]) simp
      with 1(3) have "s = Literal (take l (drop i data)) \<or> s \<in> set (rle_segments_loop data i')"
        by simp
      then show ?thesis
      proof
        assume s: "s = Literal (take l (drop i data))"
        have "length (take l (drop i data)) = l" using b(1) by simp
        with s 1(4) b(2) show ?thesis by simp
      next
        assume "s \<in> set (rle_segments_loop data i')"
        then show ?thesis
          using 1(2) [OF True r_def lit l_def] 1(4) by (simp add: i'_def)
      qed
    qed
  qed
qed

lemma unat_length_byte: "n \<le> 255 \<Longrightarrow> unat (of_nat n :: u8) = n"
  by (simp add: unat_of_nat)

lemma length_byte_not_marker: "n < 255 \<Longrightarrow> (of_nat n :: u8) \<noteq> 0xFF"
proof
  assume less: "n < 255" and eq: "(of_nat n :: u8) = 0xFF"
  from less have "unat (of_nat n :: u8) = n" by (simp add: unat_length_byte)
  with eq have "n = 255" by simp
  with less show False by simp
qed

lemma decompress_rle_loop_segments:
  "\<forall>s \<in> set segs. decodable s \<Longrightarrow>
   decompress_rle_loop (pre @ concat (map segment_bytes segs)) (length pre) data =
     data @ concat (map segment_data segs)"
proof (induction segs arbitrary: pre data)
  case Nil
  show ?case by (subst decompress_rle_loop.simps) simp
next
  case (Cons s segs)
  define rest where "rest = concat (map segment_bytes segs)"
  have tail: "\<forall>s \<in> set segs. decodable s" using Cons.prems by simp
  show ?case
  proof (cases s)
    case (Run n v)
    then have n: "n \<le> 255" using Cons.prems by simp
    define c where "c = pre @ [0xFF, of_nat n, v] @ rest"
    have c: "pre @ concat (map segment_bytes (s # segs)) = c"
      by (simp add: Run c_def rest_def)
    have at: "c ! length pre = 0xFF" "c ! Suc (length pre) = of_nat n"
      "c ! Suc (Suc (length pre)) = v" "Suc (Suc (length pre)) < length c"
      "length pre < length c"
      by (simp_all add: c_def nth_append)
    have "decompress_rle_loop c (length pre) data =
        decompress_rle_loop c (length pre + 3) (data @ replicate n v)"
      by (subst decompress_rle_loop.simps) (simp add: at Let_def unat_length_byte [OF n])
    also have "c = (pre @ [0xFF, of_nat n, v]) @ concat (map segment_bytes segs)"
      by (simp add: c_def rest_def)
    also have "decompress_rle_loop \<dots> (length pre + 3) (data @ replicate n v) =
        (data @ replicate n v) @ concat (map segment_data segs)"
      using Cons.IH [OF tail, of "pre @ [0xFF, of_nat n, v]" "data @ replicate n v"]
      by (simp add: eval_nat_numeral)
    finally show ?thesis by (simp add: c Run)
  next
    case (Literal l)
    then have l: "length l < 255" using Cons.prems by simp
    define c where "c = pre @ (of_nat (length l) # l) @ rest"
    have c: "pre @ concat (map segment_bytes (s # segs)) = c"
      by (simp add: Literal c_def rest_def)
    have at: "c ! length pre = of_nat (length l)" "length pre + length l < length c"
      "length pre < length c"
      by (simp_all add: c_def nth_append)
    have lit: "take (length l) (drop (Suc (length pre)) c) = l"
      by (simp add: c_def)
    have un: "unat (of_nat (length l) :: u8) = length l"
      using l by (simp add: unat_length_byte)
    have "decompress_rle_loop c (length pre) data =
        decompress_rle_loop c (length pre + length l + 1) (data @ l)"
      by (subst decompress_rle_loop.simps)
         (simp add: at Let_def un lit length_byte_not_marker [OF l])
    also have "c = (pre @ of_nat (length l) # l) @ concat (map segment_bytes segs)"
      by (simp add: c_def rest_def)
    also have "decompress_rle_loop \<dots> (length pre + length l + 1) (data @ l) =
        (data @ l) @ concat (map segment_data segs)"
      using Cons.IH [OF tail, of "pre @ of_nat (length l) # l" "data @ l"] by simp
    finally show ?thesis by (simp add: c Literal)
  qed
qed

lemma rle_decode_encode:
  assumes "\<not> emits_literal_255 b"
  shows "decompress_rle (compress_rle b) = b"
proof -
  have "\<forall>s \<in> set (rle_segments b). decodable s"
    using assms rle_segments_loop_decodable [of _ b 0]
    by (auto simp: emits_literal_255_def rle_segments_def list_ex_iff)
  then have "decompress_rle_loop ([] @ concat (map segment_bytes (rle_segments b))) (length ([] :: u8 list)) [] =
      [] @ concat (map segment_data (rle_segments b))"
    by (rule decompress_rle_loop_segments)
  then show ?thesis
    by (simp add: decompress_rle_def compress_rle_def compress_rle_loop_segments
        rle_segments_def rle_segments_loop_data)
qed

text \<open>
  Claim C3. For every byte sequence with no run of 256 or more equal bytes, for which
  the encoder emits no literal segment of exactly 255 bytes, decoding the run-length
  encoding gives the sequence back. (A literal segment of 255 bytes starts with the
  length byte \<open>0xFF\<close>, which the decoder reads as the marker of a run record.)
\<close>

theorem rle_roundtrip_except_literal_255:
  "longest_run b < 256 \<Longrightarrow> \<not> emits_literal_255 b \<Longrightarrow> decompress_rle (compress_rle b) = b"
  by (rule rle_decode_encode)

theorem rle_roundtrip_except_literal_255_witness:
  "longest_run [1, 2, 2, 2, 2, 2, 3, 3] < 256 \<and> \<not> emits_literal_255 [1, 2, 2, 2, 2, 2, 3, 3] \<and>
   decompress_rle (compress_rle [1, 2, 2, 2, 2, 2, 3, 3]) = [1, 2, 2, 2, 2, 2, 3, 3]"
proof -
  have h: "longest_run [1, 2, 2, 2, 2, 2, 3, 3] < 256" "\<not> emits_literal_255 [1, 2, 2, 2, 2, 2, 3, 3]"
    by code_simp+
  from rle_roundtrip_except_literal_255 [OF h] h show ?thesis by simp
qed

section \<open>Quantizer: the round trip in exact arithmetic\<close>


lemma exact_ops [simp]:
  "f_less exact_float_ops a b = (a < b)" "f_add exact_float_ops a b = a + b"
  "f_sub exact_float_ops a b = a - b" "f_mul exact_float_ops a b = a * b"
  "f_div exact_float_ops a b = a / b" "f_of_int exact_float_ops k = of_int k"
  "f_to_u8 exact_float_ops x = word_of_int (if 0 \<le> x then \<lfloor>x\<rfloor> else \<lceil>x\<rceil>)"
  "f_literal exact_float_ops w = f32_value w"
  by (simp_all add: exact_float_ops_def)













end
